theory Spec2Isabelle
  imports Main
begin

section \<open>Board model\<close>

text \<open>
  The two marks are the strings \<^verbatim>\<open>PLAYERS.X\<close> and \<^verbatim>\<open>PLAYERS.O\<close> of \<^verbatim>\<open>App.js\<close>.
  A cell of the board array holds \<^verbatim>\<open>null\<close> (\<open>None\<close>) or one of the two marks.
  A board is the JavaScript array \<^verbatim>\<open>squares\<close>; a well-formed board has nine cells.
\<close>

datatype mark = PlayerX | PlayerO

type_synonym cell = "mark option"

type_synonym board = "cell list"

definition EMPTY_BOARD :: board where
  "EMPTY_BOARD = replicate 9 None"

definition wellFormed :: "board \<Rightarrow> bool" where
  "wellFormed squares = (length squares = 9)"

text \<open>
  \<^verbatim>\<open>squares[i]\<close> as a read: an index past the end of the array yields \<^verbatim>\<open>undefined\<close>,
  which is falsy and is never \<^verbatim>\<open>===\<close> to a mark; in \<open>calculateWinner\<close> it therefore
  behaves like an empty cell.
\<close>

definition cellAt :: "board \<Rightarrow> nat \<Rightarrow> cell" where
  "cellAt squares i = (if i < length squares then squares ! i else None)"

definition lines :: "(nat \<times> nat \<times> nat) list" where
  "lines = [(0, 1, 2), (3, 4, 5), (6, 7, 8), (0, 3, 6), (1, 4, 7), (2, 5, 8), (0, 4, 8), (2, 4, 6)]"

text \<open>The \<^verbatim>\<open>for (const [a, b, c] of lines)\<close> loop of \<^verbatim>\<open>calculateWinner\<close>.\<close>

fun winner_loop :: "(nat \<times> nat \<times> nat) list \<Rightarrow> board \<Rightarrow> mark option" where
  "winner_loop [] squares = None"
| "winner_loop ((a, b, c) # rest) squares =
     (if cellAt squares a \<noteq> None \<and> cellAt squares a = cellAt squares b \<and> cellAt squares a = cellAt squares c
      then cellAt squares a
      else winner_loop rest squares)"

definition calculateWinner :: "board \<Rightarrow> mark option" where
  "calculateWinner squares = winner_loop lines squares"

definition getAvailableMoves :: "board \<Rightarrow> nat list" where
  "getAvailableMoves squares = filter (\<lambda>i. squares ! i = None) [0..<length squares]"

fun opponentOf :: "mark \<Rightarrow> mark" where
  "opponentOf player = (if player = PlayerX then PlayerO else PlayerX)"

definition evaluate :: "board \<Rightarrow> mark \<Rightarrow> int" where
  "evaluate squares aiPlayer =
     (let w = calculateWinner squares in
      if w = Some aiPlayer then 10
      else if w = Some (opponentOf aiPlayer) then -10
      else 0)"

section \<open>Search values\<close>

text \<open>
  The running best value of a search loop starts at \<^verbatim>\<open>-Infinity\<close> or \<^verbatim>\<open>Infinity\<close> and is
  combined with integer scores by \<^verbatim>\<open>Math.max\<close>, \<^verbatim>\<open>Math.min\<close> and \<^verbatim>\<open>>\<close>: the integers
  extended by the two infinities, in their usual order.
\<close>

datatype jsnum = NegInf | Num int | PosInf

instantiation jsnum :: linorder
begin

fun less_eq_jsnum :: "jsnum \<Rightarrow> jsnum \<Rightarrow> bool" where
  "less_eq_jsnum NegInf _ = True"
| "less_eq_jsnum (Num a) NegInf = False"
| "less_eq_jsnum (Num a) (Num b) = (a \<le> b)"
| "less_eq_jsnum (Num a) PosInf = True"
| "less_eq_jsnum PosInf PosInf = True"
| "less_eq_jsnum PosInf _ = False"

definition less_jsnum :: "jsnum \<Rightarrow> jsnum \<Rightarrow> bool" where
  "less_jsnum a b = (a \<le> b \<and> \<not> b \<le> a)"

instance
proof
  fix x y z :: jsnum
  show "(x < y) = (x \<le> y \<and> \<not> y \<le> x)" by (simp add: less_jsnum_def)
  show "x \<le> x" by (cases x) simp_all
  show "x \<le> y \<Longrightarrow> y \<le> z \<Longrightarrow> x \<le> z" by (cases x; cases y; cases z) simp_all
  show "x \<le> y \<Longrightarrow> y \<le> x \<Longrightarrow> x = y" by (cases x; cases y) simp_all
  show "x \<le> y \<or> y \<le> x" by (cases x; cases y) auto
qed

end

section \<open>The minimax search\<close>

text \<open>
  \<^verbatim>\<open>minimax(squares, depth, isMax, aiPlayer)\<close> writes into the array it is given and
  clears the cell again after each recursive call. The array is threaded through the
  model: every function returns the value together with the array as it leaves it.
  \<open>max_loop\<close> and \<open>min_loop\<close> are the two \<^verbatim>\<open>for (const move of getAvailableMoves(squares))\<close>
  loops; the list of moves is computed once, before the first iteration. Every index
  the loops write to comes from \<open>getAvailableMoves\<close> and so lies inside the array.

  \<^verbatim>\<open>depth\<close> is a JavaScript number. The model takes it as an integer and computes
  \<^verbatim>\<open>depth + 1\<close> and \<^verbatim>\<open>score - depth * Math.sign(score)\<close> exactly. That is what the
  source computes as long as the integers involved have magnitude at most \<open>2 ^ 53\<close>, where
  doubles hold every integer; beyond that the source rounds and the model does not follow
  it. \<^verbatim>\<open>findBestMove\<close> starts the search at depth 0 and the recursion adds at most 9.
\<close>

function (domintros) minimax :: "board \<Rightarrow> int \<Rightarrow> bool \<Rightarrow> mark \<Rightarrow> jsnum \<times> board"
  and max_loop :: "nat list \<Rightarrow> board \<Rightarrow> int \<Rightarrow> mark \<Rightarrow> jsnum \<Rightarrow> jsnum \<times> board"
  and min_loop :: "nat list \<Rightarrow> board \<Rightarrow> int \<Rightarrow> mark \<Rightarrow> jsnum \<Rightarrow> jsnum \<times> board"
where
  "minimax squares depth isMax aiPlayer =
     (let score = evaluate squares aiPlayer in
      if score = 10 \<or> score = -10 then (Num (score - depth * sgn score), squares)
      else if length (getAvailableMoves squares) = 0 then (Num 0, squares)
      else if isMax then max_loop (getAvailableMoves squares) squares depth aiPlayer NegInf
      else min_loop (getAvailableMoves squares) squares depth aiPlayer PosInf)"
| "max_loop [] squares depth aiPlayer best = (best, squares)"
| "max_loop (move # moves) squares depth aiPlayer best =
     (case minimax (squares[move := Some aiPlayer]) (depth + 1) False aiPlayer of
        (v, squares') \<Rightarrow> max_loop moves (squares'[move := None]) depth aiPlayer (max best v))"
| "min_loop [] squares depth aiPlayer best = (best, squares)"
| "min_loop (move # moves) squares depth aiPlayer best =
     (case minimax (squares[move := Some (opponentOf aiPlayer)]) (depth + 1) True aiPlayer of
        (v, squares') \<Rightarrow> min_loop moves (squares'[move := None]) depth aiPlayer (min best v))"
  by pat_completeness auto

section \<open>Move selection\<close>

text \<open>
  The three loops of \<^verbatim>\<open>findBestMove\<close> over \<^verbatim>\<open>avail\<close>: the immediate win, the immediate
  block, and the full search with its running \<^verbatim>\<open>bestVal\<close> and \<^verbatim>\<open>bestMove\<close>. Each places a
  mark in the array, looks, and clears the cell again; the array is threaded through as in
  \<open>minimax\<close>.
\<close>

fun win_loop :: "nat list \<Rightarrow> board \<Rightarrow> mark \<Rightarrow> nat option \<times> board" where
  "win_loop [] squares aiPlayer = (None, squares)"
| "win_loop (move # moves) squares aiPlayer =
     (let squares1 = squares[move := Some aiPlayer] in
      if calculateWinner squares1 = Some aiPlayer then (Some move, squares1[move := None])
      else win_loop moves (squares1[move := None]) aiPlayer)"

fun block_loop :: "nat list \<Rightarrow> board \<Rightarrow> mark \<Rightarrow> nat option \<times> board" where
  "block_loop [] squares aiPlayer = (None, squares)"
| "block_loop (move # moves) squares aiPlayer =
     (let opp = opponentOf aiPlayer;
          squares1 = squares[move := Some opp] in
      if calculateWinner squares1 = Some opp then (Some move, squares1[move := None])
      else block_loop moves (squares1[move := None]) aiPlayer)"

fun search_loop :: "nat list \<Rightarrow> board \<Rightarrow> mark \<Rightarrow> jsnum \<Rightarrow> nat \<Rightarrow> nat \<times> board" where
  "search_loop [] squares aiPlayer bestVal bestMove = (bestMove, squares)"
| "search_loop (move # moves) squares aiPlayer bestVal bestMove =
     (case minimax (squares[move := Some aiPlayer]) 0 False aiPlayer of
        (moveVal, squares') \<Rightarrow>
          if moveVal > bestVal
          then search_loop moves (squares'[move := None]) aiPlayer moveVal move
          else search_loop moves (squares'[move := None]) aiPlayer bestVal bestMove)"

text \<open>
  \<^verbatim>\<open>findBestMove(squares, aiPlayer)\<close> returns a cell index or \<^verbatim>\<open>null\<close> (\<open>None\<close>), and the
  array as it leaves it. \<^verbatim>\<open>bestMove\<close> starts as \<^verbatim>\<open>avail[0]\<close>, which exists because the
  empty list has returned before.
\<close>

definition findBestMove :: "board \<Rightarrow> mark \<Rightarrow> nat option \<times> board" where
  "findBestMove squares aiPlayer =
     (case getAvailableMoves squares of
        [] \<Rightarrow> (None, squares)
      | first # others \<Rightarrow>
          (case win_loop (first # others) squares aiPlayer of
             (Some move, squares1) \<Rightarrow> (Some move, squares1)
           | (None, squares1) \<Rightarrow>
               (case block_loop (first # others) squares1 aiPlayer of
                  (Some move, squares2) \<Rightarrow> (Some move, squares2)
                | (None, squares2) \<Rightarrow>
                    (case search_loop (first # others) squares2 aiPlayer NegInf first of
                       (bestMove, squares3) \<Rightarrow> (Some bestMove, squares3)))))"

section \<open>Game session\<close>

text \<open>
  The state of the \<^verbatim>\<open>App\<close> component that the game depends on: \<^verbatim>\<open>mode\<close>, \<^verbatim>\<open>board\<close>,
  \<^verbatim>\<open>xIsNext\<close> and \<^verbatim>\<open>winner\<close> (\<^verbatim>\<open>'X' | 'O' | 'draw' | null\<close>). The theme and the unused
  \<^verbatim>\<open>aiEnabled\<close> flag play no part. Events are taken one at a time, each followed by the
  effects it triggers; the 350 ms delay of the automated move is not modelled.
\<close>

datatype gameMode = PVP | AI

datatype result = Won mark | Draw

record session =
  mode :: gameMode
  board :: board
  xIsNext :: bool
  winner :: "result option"

definition initialSession :: session where
  "initialSession = \<lparr>mode = PVP, board = EMPTY_BOARD, xIsNext = True, winner = None\<rparr>"

definition currentPlayer :: "session \<Rightarrow> mark" where
  "currentPlayer s = (if xIsNext s then PlayerX else PlayerO)"

definition gameOver :: "session \<Rightarrow> bool" where
  "gameOver s = (winner s \<noteq> None)"

text \<open>
  \<^verbatim>\<open>handleMove(index)\<close>: \<^verbatim>\<open>board[index] !== null\<close> also holds for an index outside the array
  (\<^verbatim>\<open>undefined !== null\<close>), so such an index is rejected like an occupied cell.
\<close>

definition handleMove :: "session \<Rightarrow> nat \<Rightarrow> session" where
  "handleMove s index =
     (if gameOver s \<or> \<not> (index < length (board s) \<and> board s ! index = None) then s
      else s\<lparr>board := (board s)[index := Some (currentPlayer s)], xIsNext := \<not> xIsNext s\<rparr>)"

text \<open>The effect on \<^verbatim>\<open>[board]\<close> that records a winner or a draw.\<close>

definition winnerEffect :: "session \<Rightarrow> session" where
  "winnerEffect s =
     (case calculateWinner (board s) of
        Some w \<Rightarrow> s\<lparr>winner := Some (Won w)\<rparr>
      | None \<Rightarrow> if list_all (\<lambda>c. c \<noteq> None) (board s) then s\<lparr>winner := Some Draw\<rparr> else s)"

text \<open>
  The outcome that the effect derives from a board: a winner, a draw when no cell is empty
  and nobody has won, or \<open>None\<close> while the game is in progress.
\<close>

definition outcome :: "board \<Rightarrow> result option" where
  "outcome squares =
     (case calculateWinner squares of
        Some w \<Rightarrow> Some (Won w)
      | None \<Rightarrow> if list_all (\<lambda>c. c \<noteq> None) squares then Some Draw else None)"

text \<open>
  The transition \<open>move\<close> of the session: \<open>handleMove\<close>, then the effect on \<^verbatim>\<open>[board]\<close>, which
  runs when the board has changed. An accepted move always changes a cell, so the board has
  changed exactly when the move was accepted.
\<close>

definition move :: "session \<Rightarrow> nat \<Rightarrow> session" where
  "move s index =
     (let s' = handleMove s index in
      if board s' \<noteq> board s then winnerEffect s' else s')"

definition resetGame :: "session \<Rightarrow> session" where
  "resetGame s = s\<lparr>board := EMPTY_BOARD, xIsNext := True, winner := None\<rparr>"

definition handleModeChange :: "session \<Rightarrow> gameMode \<Rightarrow> session" where
  "handleModeChange s newMode = resetGame (s\<lparr>mode := newMode\<rparr>)"

text \<open>
  The effect that lets the automated player move. \<open>aiInvocation\<close> is the call of
  \<^verbatim>\<open>findBestMove\<close> the effect makes in a state, as the pair of its arguments, or \<open>None\<close> when
  the effect returns before calling it.
\<close>

definition aiInvocation :: "session \<Rightarrow> (board \<times> mark) option" where
  "aiInvocation s =
     (if mode s \<noteq> AI \<or> gameOver s then None
      else let aiPlaysAs = PlayerO in
        if currentPlayer s \<noteq> aiPlaysAs then None
        else Some (board s, aiPlaysAs))"

definition aiTurn :: "session \<Rightarrow> session" where
  "aiTurn s =
     (case aiInvocation s of
        None \<Rightarrow> s
      | Some (squares, aiPlaysAs) \<Rightarrow>
          (case findBestMove squares aiPlaysAs of
             (None, squares') \<Rightarrow> s\<lparr>board := squares'\<rparr>
           | (Some mv, squares') \<Rightarrow> move (s\<lparr>board := squares'\<rparr>) mv))"

text \<open>
  A click on square \<open>index\<close> of the rendered board. The \<^verbatim>\<open>Board\<close> is disabled when the game
  is over or when the automated player is to move, a \<^verbatim>\<open>Square\<close> also when it holds a mark;
  a disabled button does not call \<^verbatim>\<open>onClick\<close>.
\<close>

definition boardDisabled :: "session \<Rightarrow> bool" where
  "boardDisabled s = (gameOver s \<or> (mode s = AI \<and> currentPlayer s = PlayerO))"

definition squareClick :: "session \<Rightarrow> nat \<Rightarrow> session" where
  "squareClick s index =
     (if index < length (board s) \<and> \<not> (boardDisabled s \<or> board s ! index \<noteq> None)
      then move s index else s)"

text \<open>The sessions the user interface can reach from the initial one.\<close>

inductive reachable :: "session \<Rightarrow> bool" where
  reach_initial: "reachable initialSession"
| reach_click: "reachable s \<Longrightarrow> reachable (squareClick s index)"
| reach_restart: "reachable s \<Longrightarrow> reachable (resetGame s)"
| reach_mode: "reachable s \<Longrightarrow> reachable (handleModeChange s newMode)"
| reach_ai: "reachable s \<Longrightarrow> reachable (aiTurn s)"


text \<open>
  What every reachable session satisfies: the board has nine cells, the stored winner is
  the outcome of the board, and the marks on the board are balanced with the turn.
\<close>

definition sessionInv :: "session \<Rightarrow> bool" where
  "sessionInv s =
     (length (board s) = 9 \<and> winner s = outcome (board s) \<and>
      count_list (board s) (Some PlayerX) =
        count_list (board s) (Some PlayerO) + (if xIsNext s then 0 else 1))"

text \<open>
  The marks placed by the accepted moves of a sequence of \<open>move\<close> transitions, in the order
  they are placed. A move is accepted when the game is not over and the cell is an empty
  cell of the board.
\<close>

definition accepted :: "session \<Rightarrow> nat \<Rightarrow> bool" where
  "accepted s index = (\<not> gameOver s \<and> index < length (board s) \<and> board s ! index = None)"

fun placedMarks :: "session \<Rightarrow> nat list \<Rightarrow> mark list" where
  "placedMarks s [] = []"
| "placedMarks s (index # rest) =
     (if accepted s index then currentPlayer s # placedMarks (move s index) rest
      else placedMarks (move s index) rest)"

text \<open>
  Modelled from the spec: the self-play game of the testable properties, which the source
  does not contain. While the session is not over, the player to move places its mark on
  the cell \<open>findBestMove\<close> returns for that player's mark; the session is advanced by \<open>move\<close>.
  The result is \<open>None\<close> when \<open>findBestMove\<close> has no move in a session that is not over, or
  when the game never ends.
\<close>

partial_function (option) selfPlay :: "session \<Rightarrow> session option" where
  "selfPlay s =
     (if gameOver s then Some s
      else (case findBestMove (board s) (currentPlayer s) of
              (None, squares') \<Rightarrow> None
            | (Some mv, squares') \<Rightarrow> selfPlay (move (s\<lparr>board := squares'\<rparr>) mv)))"

declare selfPlay.simps [code]

section \<open>Bounds on search values\<close>

text \<open>
  Deciding a bound on the value of \<open>minimax\<close> needs only part of the game tree: a value of
  a maximizing position is at least \<open>c\<close> as soon as one successor is, and at most \<open>c\<close> when
  all are. \<open>lowerL\<close> and \<open>upperL\<close> decide such bounds for a list of positions, all of them or
  one of them, within a number of plies. They serve the proofs about concrete games and are
  not part of the program.
\<close>

fun placements :: "mark \<Rightarrow> board \<Rightarrow> board list" where
  "placements p [] = []"
| "placements p (c # cs) = (if c = None then [Some p # cs] else []) @ map ((#) c) (placements p cs)"

fun fastWinner :: "board \<Rightarrow> mark option" where
  "fastWinner [a, b, c, d, e, f, g, h, i] =
     (if a \<noteq> None \<and> a = b \<and> a = c then a
      else if d \<noteq> None \<and> d = e \<and> d = f then d
      else if g \<noteq> None \<and> g = h \<and> g = i then g
      else if a \<noteq> None \<and> a = d \<and> a = g then a
      else if b \<noteq> None \<and> b = e \<and> b = h then b
      else if c \<noteq> None \<and> c = f \<and> c = i then c
      else if a \<noteq> None \<and> a = e \<and> a = i then a
      else if c \<noteq> None \<and> c = e \<and> c = g then c
      else None)"
| "fastWinner squares = calculateWinner squares"

fun lowerL :: "nat \<Rightarrow> bool \<Rightarrow> int \<Rightarrow> board list \<Rightarrow> int \<Rightarrow> mark \<Rightarrow> bool" where
  "lowerL n isAll c [] d ai = isAll"
| "lowerL 0 isAll c (b # bs) d ai = False"
| "lowerL (Suc n) isAll c (b # bs) d ai =
     (let w = fastWinner b;
          r = (if w = Some ai then c \<le> 10 - d
               else if w = Some (opponentOf ai) then c \<le> d - 10
               else (case placements (if isAll then ai else opponentOf ai) b of
                       [] \<Rightarrow> c \<le> 0
                     | k # ks \<Rightarrow> lowerL n (\<not> isAll) c (k # ks) (d + 1) ai))
      in if isAll then (if r then lowerL (Suc n) isAll c bs d ai else False)
         else (if r then True else lowerL (Suc n) isAll c bs d ai))"

fun upperL :: "nat \<Rightarrow> bool \<Rightarrow> int \<Rightarrow> board list \<Rightarrow> int \<Rightarrow> mark \<Rightarrow> bool" where
  "upperL n isAll c [] d ai = isAll"
| "upperL 0 isAll c (b # bs) d ai = False"
| "upperL (Suc n) isAll c (b # bs) d ai =
     (let w = fastWinner b;
          r = (if w = Some ai then 10 - d \<le> c
               else if w = Some (opponentOf ai) then d - 10 \<le> c
               else (case placements (if isAll then opponentOf ai else ai) b of
                       [] \<Rightarrow> 0 \<le> c
                     | k # ks \<Rightarrow> upperL n (\<not> isAll) c (k # ks) (d + 1) ai))
      in if isAll then (if r then upperL (Suc n) isAll c bs d ai else False)
         else (if r then True else upperL (Suc n) isAll c bs d ai))"

text \<open>No available move lets \<open>p\<close> complete a line at once.\<close>

definition noImmediate :: "mark \<Rightarrow> board \<Rightarrow> bool" where
  "noImmediate p squares =
     list_all (\<lambda>k. calculateWinner (squares[k := Some p]) \<noteq> Some p) (getAvailableMoves squares)"

section \<open>Termination of the search\<close>

text \<open>
  The search ends because every recursive call works on a board with one
  more cell filled; a loop continues on the board its recursive call hands back, so the
  argument needs the frame property of the call itself, proved first on the domain of
  the function. The measure counts the empty cells left once a loop has cleared all its
  moves.
\<close>

definition countEmpty :: "board \<Rightarrow> nat" where
  "countEmpty squares = length (filter (\<lambda>c. c = None) squares)"

definition clearAll :: "nat list \<Rightarrow> board \<Rightarrow> board" where
  "clearAll moves squares = fold (\<lambda>m s. s[m := None]) moves squares"

definition outOfRange :: "nat list \<Rightarrow> board \<Rightarrow> nat" where
  "outOfRange moves squares = length (filter (\<lambda>m. length squares \<le> m) moves)"

fun searchMeasure :: "(board \<times> int \<times> bool \<times> mark) + (nat list \<times> board \<times> int \<times> mark \<times> jsnum) + (nat list \<times> board \<times> int \<times> mark \<times> jsnum) \<Rightarrow> nat \<times> nat" where
  "searchMeasure (Inl (squares, _)) = (2 * countEmpty squares + 1, 0)"
| "searchMeasure (Inr (Inl (moves, squares, _))) =
     (2 * (countEmpty (clearAll moves squares) + outOfRange moves squares), length moves)"
| "searchMeasure (Inr (Inr (moves, squares, _))) =
     (2 * (countEmpty (clearAll moves squares) + outOfRange moves squares), length moves)"

lemma available_in_range: "m \<in> set (getAvailableMoves squares) \<Longrightarrow> m < length squares \<and> squares ! m = None"
  by (simp add: getAvailableMoves_def)

lemma countEmpty_clear: "m < length squares \<Longrightarrow> countEmpty (squares[m := None]) = Suc (countEmpty (squares[m := Some a]))"
proof (induction squares arbitrary: m)
  case Nil
  then show ?case by simp
next
  case (Cons c cs)
  then show ?case by (cases m) (simp_all add: countEmpty_def)
qed

lemma countEmpty_clear_mono: "countEmpty squares \<le> countEmpty (squares[m := None])"
proof (induction squares arbitrary: m)
  case Nil
  then show ?case by simp
next
  case (Cons c cs)
  then show ?case by (cases m) (simp_all add: countEmpty_def)
qed

lemma countEmpty_clearAll_mono: "countEmpty squares \<le> countEmpty (clearAll moves squares)"
proof (induction moves arbitrary: squares)
  case Nil
  then show ?case by (simp add: clearAll_def)
next
  case (Cons m ms)
  have "countEmpty squares \<le> countEmpty (squares[m := None])" by (rule countEmpty_clear_mono)
  also have "\<dots> \<le> countEmpty (clearAll ms (squares[m := None]))" by (rule Cons.IH)
  finally show ?case by (simp add: clearAll_def)
qed

lemma clearAll_Cons: "clearAll (m # ms) squares = clearAll ms (squares[m := None])"
  by (simp add: clearAll_def)

lemma clear_empty_cell: "squares ! m = None \<Longrightarrow> squares[m := None] = squares"
  by (metis list_update_id)

lemma clearAll_available: "\<forall>m \<in> set moves. m < length squares \<and> squares ! m = None \<Longrightarrow> clearAll moves squares = squares"
  by (induction moves) (simp_all add: clearAll_def clear_empty_cell)

lemma outOfRange_available: "\<forall>m \<in> set moves. m < length squares \<Longrightarrow> outOfRange moves squares = 0"
  by (auto simp: outOfRange_def filter_empty_conv)

lemma minimax_frame_partial:
  "minimax_max_loop_min_loop_dom (Inl (squares, depth, isMax, aiPlayer)) \<Longrightarrow>
     snd (minimax squares depth isMax aiPlayer) = squares"
  "minimax_max_loop_min_loop_dom (Inr (Inl (moves, squares, depth, aiPlayer, best))) \<Longrightarrow>
     (\<forall>m \<in> set moves. m < length squares \<and> squares ! m = None) \<longrightarrow>
     snd (max_loop moves squares depth aiPlayer best) = squares"
  "minimax_max_loop_min_loop_dom (Inr (Inr (moves, squares, depth, aiPlayer, best))) \<Longrightarrow>
     (\<forall>m \<in> set moves. m < length squares \<and> squares ! m = None) \<longrightarrow>
     snd (min_loop moves squares depth aiPlayer best) = squares"
proof (induction rule: minimax_max_loop_min_loop.pinduct)
  case (1 squares depth isMax aiPlayer)
  then show ?case
    by (simp add: minimax.psimps Let_def available_in_range)
next
  case (2 squares depth aiPlayer best)
  then show ?case by (simp add: max_loop.psimps)
next
  case (3 mv moves squares depth aiPlayer best)
  show ?case
  proof
    assume av: "\<forall>m \<in> set (mv # moves). m < length squares \<and> squares ! m = None"
    obtain v s' where r: "minimax (squares[mv := Some aiPlayer]) (depth + 1) False aiPlayer = (v, s')"
      by (cases "minimax (squares[mv := Some aiPlayer]) (depth + 1) False aiPlayer")
    with "3.IH"(1) have s': "s' = squares[mv := Some aiPlayer]" by simp
    with av have restored: "s'[mv := None] = squares" by (simp add: clear_empty_cell)
    from "3.IH"(2)[OF r[symmetric]] av restored
    have "snd (max_loop moves squares depth aiPlayer (max best v)) = squares" by simp
    with "3.hyps" r restored show "snd (max_loop (mv # moves) squares depth aiPlayer best) = squares"
      by (simp add: max_loop.psimps)
  qed
next
  case (4 squares depth aiPlayer best)
  then show ?case by (simp add: min_loop.psimps)
next
  case (5 mv moves squares depth aiPlayer best)
  show ?case
  proof
    assume av: "\<forall>m \<in> set (mv # moves). m < length squares \<and> squares ! m = None"
    obtain v s' where r: "minimax (squares[mv := Some (opponentOf aiPlayer)]) (depth + 1) True aiPlayer = (v, s')"
      by (cases "minimax (squares[mv := Some (opponentOf aiPlayer)]) (depth + 1) True aiPlayer")
    with "5.IH"(1) have s': "s' = squares[mv := Some (opponentOf aiPlayer)]" by simp
    with av have restored: "s'[mv := None] = squares" by (simp add: clear_empty_cell)
    from "5.IH"(2)[OF r[symmetric]] av restored
    have "snd (min_loop moves squares depth aiPlayer (min best v)) = squares" by simp
    with "5.hyps" r restored show "snd (min_loop (mv # moves) squares depth aiPlayer best) = squares"
      by (simp add: min_loop.psimps)
  qed
qed

lemma measure_child:
  "countEmpty (squares[mv := Some a]) < countEmpty (clearAll moves (squares[mv := None])) + (outOfRange moves squares + (if length squares \<le> mv then 1 else 0))"
proof (cases "mv < length squares")
  case True
  have "countEmpty (squares[mv := Some a]) < countEmpty (squares[mv := None])"
    using True countEmpty_clear[of mv squares a] by simp
  also have "\<dots> \<le> countEmpty (clearAll moves (squares[mv := None]))"
    by (rule countEmpty_clearAll_mono)
  finally show ?thesis by simp
next
  case False
  then have "squares[mv := Some a] = squares[mv := None]" by (simp add: not_less list_update_beyond)
  then have "countEmpty (squares[mv := Some a]) \<le> countEmpty (clearAll moves (squares[mv := None]))"
    by (simp add: countEmpty_clearAll_mono)
  with False show ?thesis by simp
qed

termination minimax
proof (relation "inv_image (less_than <*lex*> less_than) searchMeasure")
  show "wf (inv_image (less_than <*lex*> less_than) searchMeasure)"
    by (intro wf_inv_image wf_lex_prod wf_less_than)
next
  fix squares :: board and depth :: int and isMax :: bool and aiPlayer :: mark and x :: int
  show "(Inr (Inl (getAvailableMoves squares, squares, depth, aiPlayer, NegInf)), Inl (squares, depth, isMax, aiPlayer))
        \<in> inv_image (less_than <*lex*> less_than) searchMeasure"
    by (simp add: clearAll_available outOfRange_available available_in_range)
  show "(Inr (Inr (getAvailableMoves squares, squares, depth, aiPlayer, PosInf)), Inl (squares, depth, isMax, aiPlayer))
        \<in> inv_image (less_than <*lex*> less_than) searchMeasure"
    by (simp add: clearAll_available outOfRange_available available_in_range)
next
  fix mv :: nat and moves :: "nat list" and squares :: board and depth :: int and aiPlayer :: mark and best :: jsnum
  show "(Inl (squares[mv := Some aiPlayer], depth + 1, False, aiPlayer), Inr (Inl (mv # moves, squares, depth, aiPlayer, best)))
        \<in> inv_image (less_than <*lex*> less_than) searchMeasure"
    using measure_child[of squares mv aiPlayer moves]
    by (auto simp add: clearAll_Cons outOfRange_def split: if_splits)
  show "(Inl (squares[mv := Some (opponentOf aiPlayer)], depth + 1, True, aiPlayer), Inr (Inr (mv # moves, squares, depth, aiPlayer, best)))
        \<in> inv_image (less_than <*lex*> less_than) searchMeasure"
    using measure_child[of squares mv "opponentOf aiPlayer" moves]
    by (auto simp add: clearAll_Cons outOfRange_def simp del: opponentOf.simps split: if_splits)
next
  fix mv :: nat and moves :: "nat list" and squares :: board and depth :: int and aiPlayer :: mark and best x :: jsnum and y :: board
  assume "(x, y) = minimax (squares[mv := Some aiPlayer]) (depth + 1) False aiPlayer"
    and "minimax_max_loop_min_loop_dom (Inl (squares[mv := Some aiPlayer], depth + 1, False, aiPlayer))"
  then have "y = squares[mv := Some aiPlayer]"
    using minimax_frame_partial(1) by (metis snd_conv)
  then show "(Inr (Inl (moves, y[mv := None], depth, aiPlayer, max best x)), Inr (Inl (mv # moves, squares, depth, aiPlayer, best)))
        \<in> inv_image (less_than <*lex*> less_than) searchMeasure"
    by (simp add: clearAll_Cons outOfRange_def)
next
  fix mv :: nat and moves :: "nat list" and squares :: board and depth :: int and aiPlayer :: mark and best x :: jsnum and y :: board
  assume "(x, y) = minimax (squares[mv := Some (opponentOf aiPlayer)]) (depth + 1) True aiPlayer"
    and "minimax_max_loop_min_loop_dom (Inl (squares[mv := Some (opponentOf aiPlayer)], depth + 1, True, aiPlayer))"
  then have "y = squares[mv := Some (opponentOf aiPlayer)]"
    using minimax_frame_partial(1) by (metis snd_conv)
  then show "(Inr (Inr (moves, y[mv := None], depth, aiPlayer, min best x)), Inr (Inr (mv # moves, squares, depth, aiPlayer, best)))
        \<in> inv_image (less_than <*lex*> less_than) searchMeasure"
    by (simp add: clearAll_Cons outOfRange_def)
qed

declare minimax.simps [simp del]




subsection \<open>The search leaves the board as it found it\<close>

lemma search_total:
  "minimax_max_loop_min_loop_dom (Inl (squares, depth, isMax, aiPlayer))"
  "minimax_max_loop_min_loop_dom (Inr (Inl (moves, squares, depth, aiPlayer, best)))"
  "minimax_max_loop_min_loop_dom (Inr (Inr (moves, squares, depth, aiPlayer, best)))"
proof (induction squares depth isMax aiPlayer and moves squares depth aiPlayer best
        and moves squares depth aiPlayer best rule: minimax_max_loop_min_loop.induct)
  case (1 squares depth isMax aiPlayer)
  show ?case by (rule minimax_max_loop_min_loop.domintros(1)) (use 1 in simp_all)
next
  case (2 squares depth aiPlayer best)
  show ?case by (rule minimax_max_loop_min_loop.domintros(2))
next
  case (3 mv moves squares depth aiPlayer best)
  show ?case by (rule minimax_max_loop_min_loop.domintros(3)) (use 3 in simp_all)
next
  case (4 squares depth aiPlayer best)
  show ?case by (rule minimax_max_loop_min_loop.domintros(4))
next
  case (5 mv moves squares depth aiPlayer best)
  show ?case by (rule minimax_max_loop_min_loop.domintros(5)) (use 5 in simp_all)
qed

lemma search_frame:
  "snd (minimax squares depth isMax aiPlayer) = squares"
  "(\<forall>m \<in> set moves. m < length squares \<and> squares ! m = None) \<longrightarrow>
     snd (max_loop moves squares depth aiPlayer best) = squares"
  "(\<forall>m \<in> set moves. m < length squares \<and> squares ! m = None) \<longrightarrow>
     snd (min_loop moves squares depth aiPlayer best) = squares"
  by (rule minimax_frame_partial(1) [OF search_total(1)],
      rule minimax_frame_partial(2) [OF search_total(2)],
      rule minimax_frame_partial(3) [OF search_total(3)])

lemma max_loop_fold:
  "\<forall>m \<in> set moves. m < length squares \<and> squares ! m = None \<Longrightarrow>
   max_loop moves squares depth aiPlayer best =
     (fold (\<lambda>m acc. max acc (fst (minimax (squares[m := Some aiPlayer]) (depth + 1) False aiPlayer))) moves best, squares)"
proof (induction moves arbitrary: best)
  case Nil
  then show ?case by simp
next
  case (Cons m ms)
  from Cons.prems have "(squares[m := Some aiPlayer])[m := None] = squares"
    by (simp add: clear_empty_cell)
  with Cons show ?case by (simp add: split_beta search_frame(1))
qed

lemma min_loop_fold:
  "\<forall>m \<in> set moves. m < length squares \<and> squares ! m = None \<Longrightarrow>
   min_loop moves squares depth aiPlayer best =
     (fold (\<lambda>m acc. min acc (fst (minimax (squares[m := Some (opponentOf aiPlayer)]) (depth + 1) True aiPlayer))) moves best, squares)"
proof (induction moves arbitrary: best)
  case Nil
  then show ?case by simp
next
  case (Cons m ms)
  from Cons.prems have "(squares[m := Some (opponentOf aiPlayer)])[m := None] = squares"
    by (simp add: clear_empty_cell)
  with Cons show ?case by (simp add: split_beta search_frame(1) del: opponentOf.simps)
qed

subsection \<open>The value of a position\<close>

lemma available_all: "\<forall>m \<in> set (getAvailableMoves squares). m < length squares \<and> squares ! m = None"
  by (simp add: getAvailableMoves_def)

lemma minimax_win:
  "calculateWinner squares = Some aiPlayer \<Longrightarrow>
     minimax squares depth isMax aiPlayer = (Num (10 - depth), squares)"
  by (simp add: minimax.simps evaluate_def)

lemma minimax_loss:
  "calculateWinner squares = Some (opponentOf aiPlayer) \<Longrightarrow>
     minimax squares depth isMax aiPlayer = (Num (depth - 10), squares)"
  by (simp add: minimax.simps evaluate_def)

lemma minimax_full:
  "calculateWinner squares = None \<Longrightarrow> getAvailableMoves squares = [] \<Longrightarrow>
     minimax squares depth isMax aiPlayer = (Num 0, squares)"
  by (simp add: minimax.simps evaluate_def)

lemma minimax_max_node:
  "calculateWinner squares = None \<Longrightarrow> getAvailableMoves squares \<noteq> [] \<Longrightarrow>
     fst (minimax squares depth True aiPlayer) =
       fold (\<lambda>m acc. max acc (fst (minimax (squares[m := Some aiPlayer]) (depth + 1) False aiPlayer)))
         (getAvailableMoves squares) NegInf"
  by (subst minimax.simps) (simp add: evaluate_def max_loop_fold available_all)

lemma minimax_min_node:
  "calculateWinner squares = None \<Longrightarrow> getAvailableMoves squares \<noteq> [] \<Longrightarrow>
     fst (minimax squares depth False aiPlayer) =
       fold (\<lambda>m acc. min acc (fst (minimax (squares[m := Some (opponentOf aiPlayer)]) (depth + 1) True aiPlayer)))
         (getAvailableMoves squares) PosInf"
  by (subst minimax.simps) (simp add: evaluate_def min_loop_fold available_all del: opponentOf.simps)

subsection \<open>Folding a maximum or a minimum\<close>

lemma fold_max_ge:
  fixes f :: "'a \<Rightarrow> 'b::linorder"
  shows "x \<le> fold (\<lambda>m acc. max acc (f m)) ms best \<longleftrightarrow> x \<le> best \<or> (\<exists>m \<in> set ms. x \<le> f m)"
  by (induction ms arbitrary: best) (auto simp: le_max_iff_disj)

lemma fold_max_le:
  fixes f :: "'a \<Rightarrow> 'b::linorder"
  shows "fold (\<lambda>m acc. max acc (f m)) ms best \<le> x \<longleftrightarrow> best \<le> x \<and> (\<forall>m \<in> set ms. f m \<le> x)"
  by (induction ms arbitrary: best) auto

lemma fold_min_ge:
  fixes f :: "'a \<Rightarrow> 'b::linorder"
  shows "x \<le> fold (\<lambda>m acc. min acc (f m)) ms best \<longleftrightarrow> x \<le> best \<and> (\<forall>m \<in> set ms. x \<le> f m)"
  by (induction ms arbitrary: best) auto

lemma fold_min_le:
  fixes f :: "'a \<Rightarrow> 'b::linorder"
  shows "fold (\<lambda>m acc. min acc (f m)) ms best \<le> x \<longleftrightarrow> best \<le> x \<or> (\<exists>m \<in> set ms. f m \<le> x)"
  by (induction ms arbitrary: best) (auto simp: min_le_iff_disj)

lemma jsnum_top [simp]: "x \<le> PosInf"
  by (cases x) simp_all

lemma jsnum_less [simp]:
  "Num a < Num b \<longleftrightarrow> a < b" "NegInf < Num a" "Num a < PosInf" "NegInf < PosInf"
  "\<not> x < NegInf" "\<not> PosInf < x"
  by (auto simp: less_jsnum_def)

subsection \<open>Successor positions\<close>

lemma getAvailableMoves_Cons:
  "getAvailableMoves (c # cs) = (if c = None then [0] else []) @ map Suc (getAvailableMoves cs)"
proof -
  have upt: "[0..<Suc (length cs)] = 0 # map Suc [0..<length cs]"
    by (simp only: upt_conv_Cons [OF zero_less_Suc] map_Suc_upt)
  show ?thesis
    unfolding getAvailableMoves_def length_Cons upt
    by (simp add: filter_map comp_def)
qed


lemma placements_moves:
  "placements p squares = map (\<lambda>m. squares[m := Some p]) (getAvailableMoves squares)"
proof (induction squares)
  case Nil
  then show ?case by (simp add: getAvailableMoves_def)
next
  case (Cons c cs)
  then show ?case by (simp add: getAvailableMoves_Cons comp_def)
qed

lemma winner_nine:
  "calculateWinner [a, b, c, d, e, f, g, h, i] =
     (if a \<noteq> None \<and> a = b \<and> a = c then a
      else if d \<noteq> None \<and> d = e \<and> d = f then d
      else if g \<noteq> None \<and> g = h \<and> g = i then g
      else if a \<noteq> None \<and> a = d \<and> a = g then a
      else if b \<noteq> None \<and> b = e \<and> b = h then b
      else if c \<noteq> None \<and> c = f \<and> c = i then c
      else if a \<noteq> None \<and> a = e \<and> a = i then a
      else if c \<noteq> None \<and> c = e \<and> c = g then c
      else None)"
  by (simp add: calculateWinner_def lines_def cellAt_def split del: if_split cong: if_cong)

lemma fastWinner_eq: "fastWinner squares = calculateWinner squares"
  by (cases squares rule: fastWinner.cases) (simp_all add: winner_nine split del: if_split)

lemma winner_cases:
  "calculateWinner b \<noteq> Some ai \<Longrightarrow> calculateWinner b \<noteq> Some (opponentOf ai) \<Longrightarrow> calculateWinner b = None"
  by (cases "calculateWinner b"; cases ai) (auto intro: mark.exhaust)

lemma placements_empty: "placements p b = [] \<longleftrightarrow> getAvailableMoves b = []"
  by (simp add: placements_moves)

lemma lower_bound_node:
  "Num c \<le> fst (minimax b d isMax ai) \<longleftrightarrow>
     (if calculateWinner b = Some ai then c \<le> 10 - d
      else if calculateWinner b = Some (opponentOf ai) then c \<le> d - 10
      else if getAvailableMoves b = [] then c \<le> 0
      else if isMax then (\<exists>k \<in> set (placements ai b). Num c \<le> fst (minimax k (d + 1) False ai))
      else (\<forall>k \<in> set (placements (opponentOf ai) b). Num c \<le> fst (minimax k (d + 1) True ai)))"
proof (cases "calculateWinner b = Some ai")
  case True
  then show ?thesis by (simp add: minimax_win)
next
  case notWin: False
  show ?thesis
  proof (cases "calculateWinner b = Some (opponentOf ai)")
    case True
    with notWin show ?thesis by (simp add: minimax_loss del: opponentOf.simps)
  next
    case False
    with notWin have none: "calculateWinner b = None" by (rule winner_cases)
    show ?thesis
    proof (cases "getAvailableMoves b = []")
      case True
      with none show ?thesis by (simp add: minimax_full)
    next
      case moves: False
      show ?thesis
      proof (cases isMax)
        case True
        with none moves show ?thesis
          by (simp add: minimax_max_node fold_max_ge placements_moves del: opponentOf.simps)
      next
        case False
        with none moves show ?thesis
          by (simp add: minimax_min_node fold_min_ge placements_moves del: opponentOf.simps)
      qed
    qed
  qed
qed

lemma upper_bound_node:
  "fst (minimax b d isMax ai) \<le> Num c \<longleftrightarrow>
     (if calculateWinner b = Some ai then 10 - d \<le> c
      else if calculateWinner b = Some (opponentOf ai) then d - 10 \<le> c
      else if getAvailableMoves b = [] then 0 \<le> c
      else if isMax then (\<forall>k \<in> set (placements ai b). fst (minimax k (d + 1) False ai) \<le> Num c)
      else (\<exists>k \<in> set (placements (opponentOf ai) b). fst (minimax k (d + 1) True ai) \<le> Num c))"
proof (cases "calculateWinner b = Some ai")
  case True
  then show ?thesis by (simp add: minimax_win)
next
  case notWin: False
  show ?thesis
  proof (cases "calculateWinner b = Some (opponentOf ai)")
    case True
    with notWin show ?thesis by (simp add: minimax_loss del: opponentOf.simps)
  next
    case False
    with notWin have none: "calculateWinner b = None" by (rule winner_cases)
    show ?thesis
    proof (cases "getAvailableMoves b = []")
      case True
      with none show ?thesis by (simp add: minimax_full)
    next
      case moves: False
      show ?thesis
      proof (cases isMax)
        case True
        with none moves show ?thesis
          by (simp add: minimax_max_node fold_max_le placements_moves del: opponentOf.simps)
      next
        case False
        with none moves show ?thesis
          by (simp add: minimax_min_node fold_min_le placements_moves del: opponentOf.simps)
      qed
    qed
  qed
qed

lemma list_step:
  "(if isAll then (if r then rest else False) else (if r then True else rest)) =
   (if isAll then r \<and> rest else r \<or> rest)"
  by simp

lemma lowerL_sound:
  "lowerL n isAll c bs d ai \<Longrightarrow>
     (if isAll then (\<forall>b \<in> set bs. Num c \<le> fst (minimax b d True ai))
      else (\<exists>b \<in> set bs. Num c \<le> fst (minimax b d False ai)))"
proof (induction n isAll c bs d ai rule: lowerL.induct)
  case (1 n isAll c d ai)
  then show ?case by simp
next
  case (2 isAll c b bs d ai)
  then show ?case by simp
next
  case (3 n isAll c b bs d ai)
  define p where "p = (if isAll then ai else opponentOf ai)"
  define r where "r = (if fastWinner b = Some ai then c \<le> 10 - d
               else if fastWinner b = Some (opponentOf ai) then c \<le> d - 10
               else (case placements p b of
                       [] \<Rightarrow> c \<le> 0
                     | k # ks \<Rightarrow> lowerL n (\<not> isAll) c (k # ks) (d + 1) ai))"
  have fw: "fastWinner b = calculateWinner b" by (rule fastWinner_eq)
  have head: "Num c \<le> fst (minimax b d isAll ai)" if r
  proof (cases "calculateWinner b = Some ai")
    case True
    with \<open>r\<close> have "c \<le> 10 - d" by (simp add: r_def fw)
    with True show ?thesis by (simp add: minimax_win)
  next
    case nw: False
    show ?thesis
    proof (cases "calculateWinner b = Some (opponentOf ai)")
      case True
      with \<open>r\<close> nw have "c \<le> d - 10" by (simp add: r_def fw del: opponentOf.simps)
      with True show ?thesis by (simp add: minimax_loss del: opponentOf.simps)
    next
      case nl: False
      show ?thesis
      proof (cases "placements p b")
        case Nil
        with \<open>r\<close> nw nl have "c \<le> 0" by (simp add: r_def fw del: opponentOf.simps)
        moreover from Nil have "getAvailableMoves b = []" by (simp add: placements_empty)
        ultimately show ?thesis using nw nl
          by (simp add: lower_bound_node del: opponentOf.simps)
      next
        case (Cons k ks)
        with \<open>r\<close> nw nl have inner_ok: "lowerL n (\<not> isAll) c (k # ks) (d + 1) ai"
          by (simp add: r_def fw del: opponentOf.simps lowerL.simps)
        from nw nl have w1: "fastWinner b \<noteq> Some ai" and w2: "fastWinner b \<noteq> Some (opponentOf ai)"
          by (simp_all add: fw del: opponentOf.simps)
        have inner: "if \<not> isAll then (\<forall>k \<in> set (placements p b). Num c \<le> fst (minimax k (d + 1) True ai))
            else (\<exists>k \<in> set (placements p b). Num c \<le> fst (minimax k (d + 1) False ai))"
          unfolding Cons
          by (rule "3.IH"(1)[OF refl w1 w2 Cons[unfolded p_def] inner_ok])
        from Cons have moves: "getAvailableMoves b \<noteq> []"
          using placements_empty[of p b] by simp
        show ?thesis
        proof (cases isAll)
          case True
          with inner have "\<exists>k \<in> set (placements ai b). Num c \<le> fst (minimax k (d + 1) False ai)"
            by (simp add: p_def)
          with True nw nl moves show ?thesis
            by (simp add: lower_bound_node del: opponentOf.simps)
        next
          case False
          with inner have "\<forall>k \<in> set (placements (opponentOf ai) b). Num c \<le> fst (minimax k (d + 1) True ai)"
            by (simp add: p_def del: opponentOf.simps)
          with False nw nl moves show ?thesis
            by (simp add: lower_bound_node del: opponentOf.simps)
        qed
      qed
    qed
  qed
  have step: "if isAll then r \<and> lowerL (Suc n) isAll c bs d ai
       else r \<or> lowerL (Suc n) isAll c bs d ai"
    unfolding r_def p_def using "3.prems"
    by (simp only: lowerL.simps Let_def list_step)
  show ?case
  proof (cases isAll)
    case True
    with step have r and rest: "lowerL (Suc n) isAll c bs d ai" by simp_all
    have "if isAll then \<forall>b \<in> set bs. Num c \<le> fst (minimax b d True ai)
          else \<exists>b \<in> set bs. Num c \<le> fst (minimax b d False ai)"
      by (rule "3.IH"(2)[OF refl r_def[unfolded p_def] True \<open>r\<close> rest])
    with head[OF \<open>r\<close>] True show ?thesis by simp
  next
    case False
    show ?thesis
    proof (cases r)
      case True
      with head False show ?thesis by auto
    next
      case nr: False
      with step False have rest: "lowerL (Suc n) isAll c bs d ai" by simp
      have "if isAll then \<forall>b \<in> set bs. Num c \<le> fst (minimax b d True ai)
          else \<exists>b \<in> set bs. Num c \<le> fst (minimax b d False ai)"
        by (rule "3.IH"(3)[OF refl r_def[unfolded p_def] False nr rest])
      with False show ?thesis by auto
    qed
  qed
qed

lemma upperL_sound:
  "upperL n isAll c bs d ai \<Longrightarrow>
     (if isAll then (\<forall>b \<in> set bs. fst (minimax b d False ai) \<le> Num c)
      else (\<exists>b \<in> set bs. fst (minimax b d True ai) \<le> Num c))"
proof (induction n isAll c bs d ai rule: upperL.induct)
  case (1 n isAll c d ai)
  then show ?case by simp
next
  case (2 isAll c b bs d ai)
  then show ?case by simp
next
  case (3 n isAll c b bs d ai)
  define p where "p = (if isAll then opponentOf ai else ai)"
  define r where "r = (if fastWinner b = Some ai then 10 - d \<le> c
               else if fastWinner b = Some (opponentOf ai) then d - 10 \<le> c
               else (case placements p b of
                       [] \<Rightarrow> 0 \<le> c
                     | k # ks \<Rightarrow> upperL n (\<not> isAll) c (k # ks) (d + 1) ai))"
  have fw: "fastWinner b = calculateWinner b" by (rule fastWinner_eq)
  have head: "fst (minimax b d (\<not> isAll) ai) \<le> Num c" if r
  proof (cases "calculateWinner b = Some ai")
    case True
    with \<open>r\<close> have "10 - d \<le> c" by (simp add: r_def fw)
    with True show ?thesis by (simp add: minimax_win)
  next
    case nw: False
    show ?thesis
    proof (cases "calculateWinner b = Some (opponentOf ai)")
      case True
      with \<open>r\<close> nw have "d - 10 \<le> c" by (simp add: r_def fw del: opponentOf.simps)
      with True show ?thesis by (simp add: minimax_loss del: opponentOf.simps)
    next
      case nl: False
      show ?thesis
      proof (cases "placements p b")
        case Nil
        with \<open>r\<close> nw nl have "0 \<le> c" by (simp add: r_def fw del: opponentOf.simps)
        moreover from Nil have "getAvailableMoves b = []" by (simp add: placements_empty)
        ultimately show ?thesis using nw nl
          by (simp add: upper_bound_node del: opponentOf.simps)
      next
        case (Cons k ks)
        with \<open>r\<close> nw nl have inner_ok: "upperL n (\<not> isAll) c (k # ks) (d + 1) ai"
          by (simp add: r_def fw del: opponentOf.simps upperL.simps)
        from nw nl have w1: "fastWinner b \<noteq> Some ai" and w2: "fastWinner b \<noteq> Some (opponentOf ai)"
          by (simp_all add: fw del: opponentOf.simps)
        have inner: "if \<not> isAll then (\<forall>k \<in> set (placements p b). fst (minimax k (d + 1) False ai) \<le> Num c)
            else (\<exists>k \<in> set (placements p b). fst (minimax k (d + 1) True ai) \<le> Num c)"
          unfolding Cons
          by (rule "3.IH"(1)[OF refl w1 w2 Cons[unfolded p_def] inner_ok])
        from Cons have moves: "getAvailableMoves b \<noteq> []"
          using placements_empty[of p b] by simp
        show ?thesis
        proof (cases isAll)
          case True
          with inner have "\<exists>k \<in> set (placements (opponentOf ai) b). fst (minimax k (d + 1) True ai) \<le> Num c"
            by (simp add: p_def)
          with True nw nl moves show ?thesis
            by (simp add: upper_bound_node del: opponentOf.simps)
        next
          case False
          with inner have "\<forall>k \<in> set (placements ai b). fst (minimax k (d + 1) False ai) \<le> Num c"
            by (simp add: p_def del: opponentOf.simps)
          with False nw nl moves show ?thesis
            by (simp add: upper_bound_node del: opponentOf.simps)
        qed
      qed
    qed
  qed
  have step: "if isAll then r \<and> upperL (Suc n) isAll c bs d ai
       else r \<or> upperL (Suc n) isAll c bs d ai"
    unfolding r_def p_def using "3.prems"
    by (simp only: upperL.simps Let_def list_step)
  show ?case
  proof (cases isAll)
    case True
    with step have r and rest: "upperL (Suc n) isAll c bs d ai" by simp_all
    have "if isAll then \<forall>b \<in> set bs. fst (minimax b d False ai) \<le> Num c
          else \<exists>b \<in> set bs. fst (minimax b d True ai) \<le> Num c"
      by (rule "3.IH"(2)[OF refl r_def[unfolded p_def] True \<open>r\<close> rest])
    with head[OF \<open>r\<close>] True show ?thesis by simp
  next
    case False
    show ?thesis
    proof (cases r)
      case True
      with head False show ?thesis by auto
    next
      case nr: False
      with step False have rest: "upperL (Suc n) isAll c bs d ai" by simp
      have "if isAll then \<forall>b \<in> set bs. fst (minimax b d False ai) \<le> Num c
          else \<exists>b \<in> set bs. fst (minimax b d True ai) \<le> Num c"
        by (rule "3.IH"(3)[OF refl r_def[unfolded p_def] False nr rest])
      with False show ?thesis by auto
    qed
  qed
qed

subsection \<open>The loops of the move selection\<close>

lemma win_loop_find:
  "\<forall>m \<in> set moves. m < length squares \<and> squares ! m = None \<Longrightarrow>
   win_loop moves squares p =
     (find (\<lambda>m. calculateWinner (squares[m := Some p]) = Some p) moves, squares)"
  by (induction moves) (simp_all add: Let_def clear_empty_cell)

lemma block_loop_find:
  "\<forall>m \<in> set moves. m < length squares \<and> squares ! m = None \<Longrightarrow>
   block_loop moves squares p =
     (find (\<lambda>m. calculateWinner (squares[m := Some (opponentOf p)]) = Some (opponentOf p)) moves, squares)"
  by (induction moves) (simp_all add: Let_def clear_empty_cell del: opponentOf.simps)

lemma search_loop_step:
  "m < length squares \<Longrightarrow> squares ! m = None \<Longrightarrow>
   search_loop (m # moves) squares ai bestVal bestMove =
     (if bestVal < fst (minimax (squares[m := Some ai]) 0 False ai)
      then search_loop moves squares ai (fst (minimax (squares[m := Some ai]) 0 False ai)) m
      else search_loop moves squares ai bestVal bestMove)"
  by (simp add: split_beta search_frame(1) clear_empty_cell)

lemma search_loop_result:
  assumes "\<forall>m \<in> set moves. m < length squares \<and> squares ! m = None"
  shows "\<exists>r. search_loop moves squares ai bestVal bestMove = (r, squares) \<and>
     ((r = bestMove \<and> (\<forall>k \<in> set moves. fst (minimax (squares[k := Some ai]) 0 False ai) \<le> bestVal)) \<or>
      (\<exists>xs ys. moves = xs @ r # ys \<and>
         bestVal < fst (minimax (squares[r := Some ai]) 0 False ai) \<and>
         (\<forall>k \<in> set xs. fst (minimax (squares[k := Some ai]) 0 False ai) < fst (minimax (squares[r := Some ai]) 0 False ai)) \<and>
         (\<forall>k \<in> set ys. fst (minimax (squares[k := Some ai]) 0 False ai) \<le> fst (minimax (squares[r := Some ai]) 0 False ai))))"
  using assms
proof (induction moves arbitrary: bestVal bestMove)
  case Nil
  then show ?case by simp
next
  case (Cons m ms)
  let ?val = "\<lambda>k. fst (minimax (squares[k := Some ai]) 0 False ai)"
  from Cons.prems have av: "m < length squares" "squares ! m = None"
    and rest: "\<forall>m \<in> set ms. m < length squares \<and> squares ! m = None" by simp_all
  show ?case
  proof (cases "bestVal < ?val m")
    case True
    from Cons.IH[OF rest, of "?val m" m] obtain r where
      r: "search_loop ms squares ai (?val m) m = (r, squares)" and
      alt: "(r = m \<and> (\<forall>k \<in> set ms. ?val k \<le> ?val m)) \<or>
        (\<exists>xs ys. ms = xs @ r # ys \<and> ?val m < ?val r \<and>
           (\<forall>k \<in> set xs. ?val k < ?val r) \<and> (\<forall>k \<in> set ys. ?val k \<le> ?val r))"
      by blast
    from alt have "\<exists>xs ys. m # ms = xs @ r # ys \<and> bestVal < ?val r \<and>
           (\<forall>k \<in> set xs. ?val k < ?val r) \<and> (\<forall>k \<in> set ys. ?val k \<le> ?val r)"
    proof
      assume "r = m \<and> (\<forall>k \<in> set ms. ?val k \<le> ?val m)"
      with True have "m # ms = [] @ r # ms \<and> bestVal < ?val r \<and>
           (\<forall>k \<in> set []. ?val k < ?val r) \<and> (\<forall>k \<in> set ms. ?val k \<le> ?val r)" by simp
      then show ?thesis by blast
    next
      assume "\<exists>xs ys. ms = xs @ r # ys \<and> ?val m < ?val r \<and>
           (\<forall>k \<in> set xs. ?val k < ?val r) \<and> (\<forall>k \<in> set ys. ?val k \<le> ?val r)"
      then obtain xs ys where "ms = xs @ r # ys" "?val m < ?val r"
           "\<forall>k \<in> set xs. ?val k < ?val r" "\<forall>k \<in> set ys. ?val k \<le> ?val r" by blast
      with True have "m # ms = (m # xs) @ r # ys \<and> bestVal < ?val r \<and>
           (\<forall>k \<in> set (m # xs). ?val k < ?val r) \<and> (\<forall>k \<in> set ys. ?val k \<le> ?val r)" by auto
      then show ?thesis by blast
    qed
    with r True av show ?thesis by (simp add: search_loop_step del: search_loop.simps)
  next
    case False
    then have le: "?val m \<le> bestVal" by simp
    from Cons.IH[OF rest, of bestVal bestMove] obtain r where
      r: "search_loop ms squares ai bestVal bestMove = (r, squares)" and
      alt: "(r = bestMove \<and> (\<forall>k \<in> set ms. ?val k \<le> bestVal)) \<or>
        (\<exists>xs ys. ms = xs @ r # ys \<and> bestVal < ?val r \<and>
           (\<forall>k \<in> set xs. ?val k < ?val r) \<and> (\<forall>k \<in> set ys. ?val k \<le> ?val r))"
      by blast
    from alt have "(r = bestMove \<and> (\<forall>k \<in> set (m # ms). ?val k \<le> bestVal)) \<or>
        (\<exists>xs ys. m # ms = xs @ r # ys \<and> bestVal < ?val r \<and>
           (\<forall>k \<in> set xs. ?val k < ?val r) \<and> (\<forall>k \<in> set ys. ?val k \<le> ?val r))"
    proof
      assume "r = bestMove \<and> (\<forall>k \<in> set ms. ?val k \<le> bestVal)"
      with le show ?thesis by simp
    next
      assume "\<exists>xs ys. ms = xs @ r # ys \<and> bestVal < ?val r \<and>
           (\<forall>k \<in> set xs. ?val k < ?val r) \<and> (\<forall>k \<in> set ys. ?val k \<le> ?val r)"
      then obtain xs ys where "ms = xs @ r # ys" "bestVal < ?val r"
           "\<forall>k \<in> set xs. ?val k < ?val r" "\<forall>k \<in> set ys. ?val k \<le> ?val r" by blast
      with le have "m # ms = (m # xs) @ r # ys \<and> bestVal < ?val r \<and>
           (\<forall>k \<in> set (m # xs). ?val k < ?val r) \<and> (\<forall>k \<in> set ys. ?val k \<le> ?val r)" by auto
      then show ?thesis by blast
    qed
    with r False av show ?thesis by (simp add: search_loop_step del: search_loop.simps)
  qed
qed

lemma available_sorted: "sorted (getAvailableMoves squares)" "distinct (getAvailableMoves squares)"
  by (simp_all add: getAvailableMoves_def sorted_wrt_filter)

text \<open>The move of the full search is the first of the moves of greatest value.\<close>

lemma search_loop_first_max:
  assumes "getAvailableMoves squares = first # others"
  shows "\<exists>r. search_loop (first # others) squares ai NegInf first = (r, squares) \<and>
     r \<in> set (first # others) \<and>
     (\<forall>k \<in> set (first # others). fst (minimax (squares[k := Some ai]) 0 False ai) \<le> fst (minimax (squares[r := Some ai]) 0 False ai)) \<and>
     (\<forall>k \<in> set (first # others). k < r \<longrightarrow>
        fst (minimax (squares[k := Some ai]) 0 False ai) < fst (minimax (squares[r := Some ai]) 0 False ai))"
proof -
  let ?val = "\<lambda>k. fst (minimax (squares[k := Some ai]) 0 False ai)"
  let ?ms = "first # others"
  have av: "\<forall>m \<in> set ?ms. m < length squares \<and> squares ! m = None"
    using available_all[of squares] assms by simp
  have srt: "sorted ?ms" and dst: "distinct ?ms"
    using available_sorted[of squares] assms by simp_all
  from search_loop_result[OF av, of ai NegInf first] obtain r where
    r: "search_loop ?ms squares ai NegInf first = (r, squares)" and
    alt: "(r = first \<and> (\<forall>k \<in> set ?ms. ?val k \<le> NegInf)) \<or>
        (\<exists>xs ys. ?ms = xs @ r # ys \<and> NegInf < ?val r \<and>
           (\<forall>k \<in> set xs. ?val k < ?val r) \<and> (\<forall>k \<in> set ys. ?val k \<le> ?val r))"
    by blast
  from alt have "r \<in> set ?ms \<and> (\<forall>k \<in> set ?ms. ?val k \<le> ?val r) \<and>
     (\<forall>k \<in> set ?ms. k < r \<longrightarrow> ?val k < ?val r)"
  proof
    assume a: "r = first \<and> (\<forall>k \<in> set ?ms. ?val k \<le> NegInf)"
    then have "\<forall>k \<in> set ?ms. ?val k \<le> ?val r"
      by (meson less_eq_jsnum.simps(1) order_trans)
    moreover from srt a have "\<forall>k \<in> set ?ms. \<not> k < r" by auto
    ultimately show ?thesis using a by simp
  next
    assume "\<exists>xs ys. ?ms = xs @ r # ys \<and> NegInf < ?val r \<and>
           (\<forall>k \<in> set xs. ?val k < ?val r) \<and> (\<forall>k \<in> set ys. ?val k \<le> ?val r)"
    then obtain xs ys where split: "?ms = xs @ r # ys"
      and xs: "\<forall>k \<in> set xs. ?val k < ?val r" and ys: "\<forall>k \<in> set ys. ?val k \<le> ?val r" by blast
    from srt split have "sorted (xs @ r # ys)" by simp
    then have later: "\<forall>k \<in> set ys. r \<le> k" by (simp add: sorted_append)
    have "\<forall>k \<in> set ?ms. ?val k \<le> ?val r"
      unfolding split using xs ys by (auto simp: less_imp_le)
    moreover have "\<forall>k \<in> set ?ms. k < r \<longrightarrow> ?val k < ?val r"
      unfolding split using xs later by auto
    moreover have "r \<in> set ?ms" unfolding split by simp
    ultimately show ?thesis by blast
  qed
  with r show ?thesis by blast
qed

subsection \<open>What the move selection returns\<close>

lemma findBestMove_unfold:
  "findBestMove squares ai =
     (case getAvailableMoves squares of
        [] \<Rightarrow> (None, squares)
      | first # others \<Rightarrow>
          (case find (\<lambda>m. calculateWinner (squares[m := Some ai]) = Some ai) (first # others) of
             Some m \<Rightarrow> (Some m, squares)
           | None \<Rightarrow>
               (case find (\<lambda>m. calculateWinner (squares[m := Some (opponentOf ai)]) = Some (opponentOf ai)) (first # others) of
                  Some m \<Rightarrow> (Some m, squares)
                | None \<Rightarrow> (Some (fst (search_loop (first # others) squares ai NegInf first)), squares))))"
proof (cases "getAvailableMoves squares")
  case Nil
  then show ?thesis by (simp add: findBestMove_def)
next
  case (Cons first others)
  then have av: "\<forall>m \<in> set (first # others). m < length squares \<and> squares ! m = None"
    using available_all[of squares] by simp
  from search_loop_result[OF av, of ai NegInf first] obtain r where
    s: "search_loop (first # others) squares ai NegInf first = (r, squares)"
    by blast
  note loops = win_loop_find[OF av, of ai] block_loop_find[OF av, of ai] s
  show ?thesis
    unfolding findBestMove_def Cons
    by (simp add: loops split: option.splits
          del: win_loop.simps block_loop.simps search_loop.simps opponentOf.simps)
qed

lemma find_filter: "find P (filter Q xs) = find (\<lambda>x. Q x \<and> P x) xs"
  by (induction xs) simp_all

lemma find_upt_Some:
  "find P [0..<n] = Some j \<longleftrightarrow> j < n \<and> P j \<and> (\<forall>k<j. \<not> P k)"
  by (auto simp: find_Some_iff)

lemma find_available_Some:
  "find P (getAvailableMoves squares) = Some j \<longleftrightarrow>
     j < length squares \<and> squares ! j = None \<and> P j \<and> (\<forall>k<j. squares ! k = None \<longrightarrow> \<not> P k)"
  by (auto simp: getAvailableMoves_def find_filter find_upt_Some)

lemma find_available_None:
  "find P (getAvailableMoves squares) = None \<longleftrightarrow>
     (\<forall>k<length squares. squares ! k = None \<longrightarrow> \<not> P k)"
  by (auto simp: getAvailableMoves_def find_None_iff)

lemma noImmediate_iff:
  "noImmediate p squares \<longleftrightarrow>
     (\<forall>k<length squares. squares ! k = None \<longrightarrow> calculateWinner (squares[k := Some p]) \<noteq> Some p)"
  by (auto simp: noImmediate_def list_all_iff getAvailableMoves_def)

lemma no_moves_iff: "getAvailableMoves squares = [] \<longleftrightarrow> (\<forall>k<length squares. squares ! k \<noteq> None)"
  by (auto simp: getAvailableMoves_def filter_empty_conv)

lemma findBestMove_frame: "snd (findBestMove squares ai) = squares"
  by (simp add: findBestMove_unfold split: list.splits option.splits)

lemma findBestMove_win:
  assumes "find (\<lambda>m. calculateWinner (squares[m := Some ai]) = Some ai) (getAvailableMoves squares) = Some j"
  shows "findBestMove squares ai = (Some j, squares)"
proof -
  from assms obtain first others where "getAvailableMoves squares = first # others"
    by (cases "getAvailableMoves squares") auto
  with assms show ?thesis by (simp add: findBestMove_unfold)
qed

lemma findBestMove_block:
  assumes "find (\<lambda>m. calculateWinner (squares[m := Some ai]) = Some ai) (getAvailableMoves squares) = None"
    and "find (\<lambda>m. calculateWinner (squares[m := Some (opponentOf ai)]) = Some (opponentOf ai)) (getAvailableMoves squares) = Some j"
  shows "findBestMove squares ai = (Some j, squares)"
proof -
  from assms(2) obtain first others where "getAvailableMoves squares = first # others"
    by (cases "getAvailableMoves squares") auto
  with assms show ?thesis by (simp add: findBestMove_unfold del: opponentOf.simps)
qed

lemma findBestMove_search:
  assumes "find (\<lambda>m. calculateWinner (squares[m := Some ai]) = Some ai) (getAvailableMoves squares) = None"
    and "find (\<lambda>m. calculateWinner (squares[m := Some (opponentOf ai)]) = Some (opponentOf ai)) (getAvailableMoves squares) = None"
    and "getAvailableMoves squares \<noteq> []"
  shows "\<exists>r. findBestMove squares ai = (Some r, squares) \<and>
     r \<in> set (getAvailableMoves squares) \<and>
     (\<forall>k \<in> set (getAvailableMoves squares). fst (minimax (squares[k := Some ai]) 0 False ai) \<le> fst (minimax (squares[r := Some ai]) 0 False ai)) \<and>
     (\<forall>k \<in> set (getAvailableMoves squares). k < r \<longrightarrow>
        fst (minimax (squares[k := Some ai]) 0 False ai) < fst (minimax (squares[r := Some ai]) 0 False ai))"
proof -
  from assms(3) obtain first others where ms: "getAvailableMoves squares = first # others"
    by (cases "getAvailableMoves squares") auto
  from search_loop_first_max[OF ms, of ai] obtain r where
    r: "search_loop (first # others) squares ai NegInf first = (r, squares)" and
    props: "r \<in> set (first # others)"
      "\<forall>k \<in> set (first # others). fst (minimax (squares[k := Some ai]) 0 False ai) \<le> fst (minimax (squares[r := Some ai]) 0 False ai)"
      "\<forall>k \<in> set (first # others). k < r \<longrightarrow>
        fst (minimax (squares[k := Some ai]) 0 False ai) < fst (minimax (squares[r := Some ai]) 0 False ai)"
    by blast
  from assms(1,2) ms r have "findBestMove squares ai = (Some r, squares)"
    by (simp add: findBestMove_unfold del: opponentOf.simps search_loop.simps)
  with props ms show ?thesis by simp
qed

section \<open>Claims about the search and the move selection\<close>

text \<open>
  C1. For every well-formed board and every mark \<open>M\<close>: if some empty cell is such that
  placing \<open>M\<close> there makes \<open>calculateWinner\<close> return \<open>M\<close>, then \<open>findBestMove\<close> returns the
  lowest-index such cell. On the board \<open>[X, X, _, O, O, _, _, _, _]\<close> with \<open>M = X\<close> it
  returns 2.
\<close>

theorem immediate_win_selected:
  assumes "wellFormed squares"
    and "i < 9" and "squares ! i = None"
    and "calculateWinner (squares[i := Some M]) = Some M"
  shows "\<exists>j\<le>i. fst (findBestMove squares M) = Some j \<and>
           squares ! j = None \<and> calculateWinner (squares[j := Some M]) = Some M \<and>
           (\<forall>k<j. squares ! k = None \<longrightarrow> calculateWinner (squares[k := Some M]) \<noteq> Some M)"
proof -
  let ?W = "\<lambda>m. calculateWinner (squares[m := Some M]) = Some M"
  from assms have "find ?W (getAvailableMoves squares) \<noteq> None"
    by (auto simp: find_available_None wellFormed_def)
  then obtain j where j: "find ?W (getAvailableMoves squares) = Some j" by auto
  then have props: "j < length squares" "squares ! j = None" "?W j"
    "\<forall>k<j. squares ! k = None \<longrightarrow> \<not> ?W k"
    by (simp_all add: find_available_Some)
  from props(4) assms(3,4) have "j \<le> i" by (meson not_le)
  moreover from j have "fst (findBestMove squares M) = Some j"
    by (simp add: findBestMove_win)
  ultimately show ?thesis using props by blast
qed

theorem immediate_win_selected_witness:
  "wellFormed [Some PlayerX, Some PlayerX, None, Some PlayerO, Some PlayerO, None, None, None, None] \<and>
   (2::nat) < 9 \<and>
   [Some PlayerX, Some PlayerX, None, Some PlayerO, Some PlayerO, None, None, None, None] ! 2 = None \<and>
   calculateWinner ([Some PlayerX, Some PlayerX, None, Some PlayerO, Some PlayerO, None, None, None, None][2 := Some PlayerX]) = Some PlayerX \<and>
   fst (findBestMove [Some PlayerX, Some PlayerX, None, Some PlayerO, Some PlayerO, None, None, None, None] PlayerX) = Some 2"
proof -
  let ?B = "[Some PlayerX, Some PlayerX, None, Some PlayerO, Some PlayerO, None, None, None, None]"
  have wf: "wellFormed ?B" by (simp add: wellFormed_def)
  have lt: "(2::nat) < 9" by simp
  have empty: "?B ! 2 = None" by simp
  have win: "calculateWinner (?B[2 := Some PlayerX]) = Some PlayerX" by code_simp
  from immediate_win_selected[OF wf lt empty win]
  obtain j where "j \<le> 2" "fst (findBestMove ?B PlayerX) = Some j" "?B ! j = None" by blast
  moreover from this(1,3) have "j = 2"
    by (cases "j = 0"; cases "j = 1") (auto simp: nth_Cons')
  ultimately show ?thesis using wf empty win by simp
qed

text \<open>
  C2. For every well-formed board and mark \<open>M\<close> such that no empty cell gives \<open>M\<close> an
  immediate win: if some empty cell is such that placing the opponent's mark there makes
  \<open>calculateWinner\<close> return the opponent, then \<open>findBestMove\<close> returns the lowest-index such
  cell. On the board \<open>[O, O, _, _, X, _, _, _, _]\<close> with \<open>M = X\<close> it returns 2.
\<close>

theorem immediate_block_selected:
  assumes "wellFormed squares"
    and "\<forall>k<9. squares ! k = None \<longrightarrow> calculateWinner (squares[k := Some M]) \<noteq> Some M"
    and "i < 9" and "squares ! i = None"
    and "calculateWinner (squares[i := Some (opponentOf M)]) = Some (opponentOf M)"
  shows "\<exists>j\<le>i. fst (findBestMove squares M) = Some j \<and>
           squares ! j = None \<and>
           calculateWinner (squares[j := Some (opponentOf M)]) = Some (opponentOf M) \<and>
           (\<forall>k<j. squares ! k = None \<longrightarrow>
              calculateWinner (squares[k := Some (opponentOf M)]) \<noteq> Some (opponentOf M))"
proof -
  let ?W = "\<lambda>m. calculateWinner (squares[m := Some M]) = Some M"
  let ?B = "\<lambda>m. calculateWinner (squares[m := Some (opponentOf M)]) = Some (opponentOf M)"
  from assms(1,2) have noWin: "find ?W (getAvailableMoves squares) = None"
    by (simp add: find_available_None wellFormed_def)
  from assms(1,3,4,5) have "find ?B (getAvailableMoves squares) \<noteq> None"
    by (auto simp: find_available_None wellFormed_def simp del: opponentOf.simps)
  then obtain j where j: "find ?B (getAvailableMoves squares) = Some j" by auto
  then have props: "j < length squares" "squares ! j = None" "?B j"
    "\<forall>k<j. squares ! k = None \<longrightarrow> \<not> ?B k"
    by (simp_all add: find_available_Some del: opponentOf.simps)
  from props(4) assms(4,5) have "j \<le> i" by (meson not_le)
  moreover from noWin j have "fst (findBestMove squares M) = Some j"
    by (simp add: findBestMove_block del: opponentOf.simps)
  ultimately show ?thesis using props by blast
qed

theorem immediate_block_selected_witness:
  "wellFormed [Some PlayerO, Some PlayerO, None, None, Some PlayerX, None, None, None, None] \<and>
   noImmediate PlayerX [Some PlayerO, Some PlayerO, None, None, Some PlayerX, None, None, None, None] \<and>
   [Some PlayerO, Some PlayerO, None, None, Some PlayerX, None, None, None, None] ! 2 = None \<and>
   calculateWinner ([Some PlayerO, Some PlayerO, None, None, Some PlayerX, None, None, None, None][2 := Some (opponentOf PlayerX)]) = Some (opponentOf PlayerX) \<and>
   fst (findBestMove [Some PlayerO, Some PlayerO, None, None, Some PlayerX, None, None, None, None] PlayerX) = Some 2"
proof -
  let ?B = "[Some PlayerO, Some PlayerO, None, None, Some PlayerX, None, None, None, None]"
  have wf: "wellFormed ?B" by (simp add: wellFormed_def)
  have ni: "noImmediate PlayerX ?B" by code_simp
  then have noWin: "\<forall>k<9. ?B ! k = None \<longrightarrow> calculateWinner (?B[k := Some PlayerX]) \<noteq> Some PlayerX"
    by (simp add: noImmediate_iff)
  have lt: "(2::nat) < 9" by simp
  have empty: "?B ! 2 = None" by simp
  have blk: "calculateWinner (?B[2 := Some (opponentOf PlayerX)]) = Some (opponentOf PlayerX)" by code_simp
  from immediate_block_selected[OF wf noWin lt empty blk]
  obtain j where "j \<le> 2" "fst (findBestMove ?B PlayerX) = Some j" "?B ! j = None" by blast
  moreover from this(1,3) have "j = 2"
    by (cases "j = 0"; cases "j = 1") (auto simp: nth_Cons')
  ultimately show ?thesis using wf ni empty blk by simp
qed

text \<open>
  C3. For every well-formed board, maximizing flag and mark \<open>M\<close>, and every integer depth
  of magnitude at most \<open>2 ^ 53 - 10\<close> (so that the depth, the score and their difference
  are integers a double holds exactly): if \<open>evaluate\<close> is 10 or -10 then \<open>minimax\<close> returns
  that score minus the depth times the sign of the score, that is \<open>10 - depth\<close> for a win
  and \<open>-10 + depth\<close> for a loss; otherwise, if the board has no empty cell, \<open>minimax\<close>
  returns 0.
\<close>

theorem minimax_base_cases:
  assumes "wellFormed squares" and "\<bar>depth\<bar> \<le> 2 ^ 53 - 10"
  shows "(evaluate squares M = 10 \<or> evaluate squares M = -10 \<longrightarrow>
            fst (minimax squares depth maximizing M) =
              Num (evaluate squares M - depth * sgn (evaluate squares M))) \<and>
         (evaluate squares M = 10 \<longrightarrow> fst (minimax squares depth maximizing M) = Num (10 - depth)) \<and>
         (evaluate squares M = -10 \<longrightarrow> fst (minimax squares depth maximizing M) = Num (-10 + depth)) \<and>
         (evaluate squares M \<noteq> 10 \<and> evaluate squares M \<noteq> -10 \<and> (\<forall>i<9. squares ! i \<noteq> None) \<longrightarrow>
            fst (minimax squares depth maximizing M) = Num 0)"
proof -
  have "getAvailableMoves squares = []" if "\<forall>i<9. squares ! i \<noteq> None"
    using that assms(1) by (simp add: no_moves_iff wellFormed_def)
  then show ?thesis
    by (subst (1 2 3 4) minimax.simps) (auto simp: Let_def)
qed

theorem minimax_base_cases_witness:
  "wellFormed [Some PlayerX, Some PlayerX, Some PlayerX, Some PlayerO, Some PlayerO, None, None, None, None] \<and>
   evaluate [Some PlayerX, Some PlayerX, Some PlayerX, Some PlayerO, Some PlayerO, None, None, None, None] PlayerX = 10 \<and>
   fst (minimax [Some PlayerX, Some PlayerX, Some PlayerX, Some PlayerO, Some PlayerO, None, None, None, None] 3 True PlayerX) = Num 7 \<and>
   evaluate [Some PlayerX, Some PlayerX, Some PlayerX, Some PlayerO, Some PlayerO, None, None, None, None] PlayerO = -10 \<and>
   fst (minimax [Some PlayerX, Some PlayerX, Some PlayerX, Some PlayerO, Some PlayerO, None, None, None, None] 3 False PlayerO) = Num (-7) \<and>
   \<bar>9007199254740982 :: int\<bar> \<le> 2 ^ 53 - 10 \<and>
   fst (minimax [Some PlayerX, Some PlayerX, Some PlayerX, Some PlayerO, Some PlayerO, None, None, None, None] 9007199254740982 True PlayerX) = Num (-9007199254740972) \<and>
   fst (minimax [Some PlayerX, Some PlayerX, Some PlayerX, Some PlayerO, Some PlayerO, None, None, None, None] (-9007199254740982) True PlayerO) = Num (-9007199254740992) \<and>
   wellFormed [Some PlayerX, Some PlayerX, Some PlayerO, Some PlayerO, Some PlayerO, Some PlayerX, Some PlayerX, Some PlayerO, Some PlayerX] \<and>
   evaluate [Some PlayerX, Some PlayerX, Some PlayerO, Some PlayerO, Some PlayerO, Some PlayerX, Some PlayerX, Some PlayerO, Some PlayerX] PlayerX = 0 \<and>
   getAvailableMoves [Some PlayerX, Some PlayerX, Some PlayerO, Some PlayerO, Some PlayerO, Some PlayerX, Some PlayerX, Some PlayerO, Some PlayerX] = [] \<and>
   fst (minimax [Some PlayerX, Some PlayerX, Some PlayerO, Some PlayerO, Some PlayerO, Some PlayerX, Some PlayerX, Some PlayerO, Some PlayerX] 9 True PlayerX) = Num 0"
proof -
  let ?W = "[Some PlayerX, Some PlayerX, Some PlayerX, Some PlayerO, Some PlayerO, None, None, None, None]"
  let ?D = "[Some PlayerX, Some PlayerX, Some PlayerO, Some PlayerO, Some PlayerO, Some PlayerX, Some PlayerX, Some PlayerO, Some PlayerX]"
  have wfW: "wellFormed ?W" and wfD: "wellFormed ?D" by (simp_all add: wellFormed_def)
  have d3: "\<bar>3 :: int\<bar> \<le> 2 ^ 53 - 10" and d9: "\<bar>9 :: int\<bar> \<le> 2 ^ 53 - 10"
    and dmax: "\<bar>9007199254740982 :: int\<bar> \<le> 2 ^ 53 - 10"
    and dmin: "\<bar>- 9007199254740982 :: int\<bar> \<le> 2 ^ 53 - 10"
    by simp_all
  have eX: "evaluate ?W PlayerX = 10" by code_simp
  have eO: "evaluate ?W PlayerO = -10" by code_simp
  have eD: "evaluate ?D PlayerX = 0" by code_simp
  have nomoves: "getAvailableMoves ?D = []" by code_simp
  then have full: "\<forall>i<9. ?D ! i \<noteq> None" by (simp add: no_moves_iff)
  from minimax_base_cases[OF wfW d3, of PlayerX True] eX
  have v1: "fst (minimax ?W 3 True PlayerX) = Num 7" by simp
  from minimax_base_cases[OF wfW d3, of PlayerO False] eO
  have v2: "fst (minimax ?W 3 False PlayerO) = Num (-7)" by simp
  from minimax_base_cases[OF wfW dmax, of PlayerX True] eX
  have v3: "fst (minimax ?W 9007199254740982 True PlayerX) = Num (-9007199254740972)" by simp
  from minimax_base_cases[OF wfW dmin, of PlayerO True] eO
  have v4: "fst (minimax ?W (-9007199254740982) True PlayerO) = Num (-9007199254740992)" by simp
  from minimax_base_cases[OF wfD d9, of PlayerX True] eD full
  have v5: "fst (minimax ?D 9 True PlayerX) = Num 0" by simp
  from wfW wfD eX eO eD nomoves dmax v1 v2 v3 v4 v5 show ?thesis by blast
qed

lemma available_iff: "k \<in> set (getAvailableMoves squares) \<longleftrightarrow> k < length squares \<and> squares ! k = None"
  by (auto simp: getAvailableMoves_def)

lemma findBestMove_None: "fst (findBestMove squares ai) = None \<longleftrightarrow> getAvailableMoves squares = []"
  by (simp add: findBestMove_unfold split: list.splits option.splits)

lemma findBestMove_member:
  assumes "fst (findBestMove squares ai) = Some i"
  shows "i \<in> set (getAvailableMoves squares)"
proof -
  let ?W = "\<lambda>m. calculateWinner (squares[m := Some ai]) = Some ai"
  let ?B = "\<lambda>m. calculateWinner (squares[m := Some (opponentOf ai)]) = Some (opponentOf ai)"
  from assms have ne: "getAvailableMoves squares \<noteq> []"
    using findBestMove_None[of squares ai] by auto
  show ?thesis
  proof (cases "find ?W (getAvailableMoves squares)")
    case (Some j)
    then have "findBestMove squares ai = (Some j, squares)" by (rule findBestMove_win)
    with assms Some show ?thesis by (simp add: find_available_Some available_iff)
  next
    case noWin: None
    show ?thesis
    proof (cases "find ?B (getAvailableMoves squares)")
      case (Some j)
      with noWin have "findBestMove squares ai = (Some j, squares)" by (rule findBestMove_block)
      with assms Some show ?thesis
        by (simp add: find_available_Some available_iff del: opponentOf.simps)
    next
      case None
      from findBestMove_search[OF noWin None ne] assms show ?thesis by auto
    qed
  qed
qed

text \<open>
  C4. For every well-formed board with an empty cell and mark \<open>M\<close> on which neither an
  immediate win nor an immediate block is found, \<open>findBestMove\<close> returns the lowest-index
  available move among those maximizing \<open>minimax(boardWithMove, 0, false, M)\<close>: no
  available move has a greater value, and every available move of lower index has a
  strictly smaller one.
\<close>

theorem search_fallback_first_max:
  assumes "wellFormed squares"
    and "\<forall>k<9. squares ! k = None \<longrightarrow> calculateWinner (squares[k := Some M]) \<noteq> Some M"
    and "\<forall>k<9. squares ! k = None \<longrightarrow>
           calculateWinner (squares[k := Some (opponentOf M)]) \<noteq> Some (opponentOf M)"
    and "\<exists>k<9. squares ! k = None"
  shows "\<exists>m<9. fst (findBestMove squares M) = Some m \<and> squares ! m = None \<and>
     (\<forall>k<9. squares ! k = None \<longrightarrow>
        fst (minimax (squares[k := Some M]) 0 False M) \<le> fst (minimax (squares[m := Some M]) 0 False M)) \<and>
     (\<forall>k<m. squares ! k = None \<longrightarrow>
        fst (minimax (squares[k := Some M]) 0 False M) < fst (minimax (squares[m := Some M]) 0 False M))"
proof -
  from assms(1) have len: "length squares = 9" by (simp add: wellFormed_def)
  from assms(2) len have noWin:
    "find (\<lambda>m. calculateWinner (squares[m := Some M]) = Some M) (getAvailableMoves squares) = None"
    by (simp add: find_available_None)
  from assms(3) len have noBlock:
    "find (\<lambda>m. calculateWinner (squares[m := Some (opponentOf M)]) = Some (opponentOf M)) (getAvailableMoves squares) = None"
    by (simp add: find_available_None del: opponentOf.simps)
  from assms(4) len have ne: "getAvailableMoves squares \<noteq> []"
    by (auto simp: no_moves_iff)
  from findBestMove_search[OF noWin noBlock ne] obtain r where
    r: "findBestMove squares M = (Some r, squares)" "r \<in> set (getAvailableMoves squares)"
    and mx: "\<forall>k \<in> set (getAvailableMoves squares).
        fst (minimax (squares[k := Some M]) 0 False M) \<le> fst (minimax (squares[r := Some M]) 0 False M)"
    and fst: "\<forall>k \<in> set (getAvailableMoves squares). k < r \<longrightarrow>
        fst (minimax (squares[k := Some M]) 0 False M) < fst (minimax (squares[r := Some M]) 0 False M)"
    by blast
  from r(2) len have "r < 9" "squares ! r = None" by (simp_all add: available_iff)
  moreover from mx len have "\<forall>k<9. squares ! k = None \<longrightarrow>
        fst (minimax (squares[k := Some M]) 0 False M) \<le> fst (minimax (squares[r := Some M]) 0 False M)"
    by (simp add: available_iff)
  moreover from fst len \<open>r < 9\<close> have "\<forall>k<r. squares ! k = None \<longrightarrow>
        fst (minimax (squares[k := Some M]) 0 False M) < fst (minimax (squares[r := Some M]) 0 False M)"
    by (simp add: available_iff)
  ultimately show ?thesis using r(1) by auto
qed

theorem search_fallback_first_max_witness:
  "wellFormed [Some PlayerX, Some PlayerX, Some PlayerO, Some PlayerO, Some PlayerO, Some PlayerX, Some PlayerX, None, None] \<and>
   noImmediate PlayerO [Some PlayerX, Some PlayerX, Some PlayerO, Some PlayerO, Some PlayerO, Some PlayerX, Some PlayerX, None, None] \<and>
   noImmediate (opponentOf PlayerO) [Some PlayerX, Some PlayerX, Some PlayerO, Some PlayerO, Some PlayerO, Some PlayerX, Some PlayerX, None, None] \<and>
   [Some PlayerX, Some PlayerX, Some PlayerO, Some PlayerO, Some PlayerO, Some PlayerX, Some PlayerX, None, None] ! 7 = None \<and>
   (\<exists>m<9. fst (findBestMove [Some PlayerX, Some PlayerX, Some PlayerO, Some PlayerO, Some PlayerO, Some PlayerX, Some PlayerX, None, None] PlayerO) = Some m \<and>
      [Some PlayerX, Some PlayerX, Some PlayerO, Some PlayerO, Some PlayerO, Some PlayerX, Some PlayerX, None, None] ! m = None)"
proof -
  let ?B = "[Some PlayerX, Some PlayerX, Some PlayerO, Some PlayerO, Some PlayerO, Some PlayerX, Some PlayerX, None, None]"
  have wf: "wellFormed ?B" by (simp add: wellFormed_def)
  have ni1: "noImmediate PlayerO ?B" by code_simp
  then have noWin: "\<forall>k<9. ?B ! k = None \<longrightarrow> calculateWinner (?B[k := Some PlayerO]) \<noteq> Some PlayerO"
    by (simp add: noImmediate_iff)
  have ni2: "noImmediate (opponentOf PlayerO) ?B" by code_simp
  then have noBlock: "\<forall>k<9. ?B ! k = None \<longrightarrow>
      calculateWinner (?B[k := Some (opponentOf PlayerO)]) \<noteq> Some (opponentOf PlayerO)"
    by (simp add: noImmediate_iff del: opponentOf.simps)
  have e7: "?B ! 7 = None" by simp
  then have "(7::nat) < 9 \<and> ?B ! 7 = None" by simp
  then have some: "\<exists>k<9. ?B ! k = None" by blast
  from search_fallback_first_max[OF wf noWin noBlock some]
  have "\<exists>m<9. fst (findBestMove ?B PlayerO) = Some m \<and> ?B ! m = None" by blast
  with wf ni1 ni2 e7 show ?thesis by blast
qed

text \<open>
  C5. For every well-formed board, depth, maximizing flag and mark \<open>M\<close>, the board after
  \<open>minimax\<close> returns equals the board passed in, and so does the board after \<open>findBestMove\<close>
  returns: every mark placed during the search has been cleared again.
\<close>

theorem board_restored:
  assumes "wellFormed squares"
  shows "snd (minimax squares depth maximizing M) = squares \<and> snd (findBestMove squares M) = squares"
  by (simp add: search_frame(1) findBestMove_frame)

theorem board_restored_witness:
  "wellFormed [Some PlayerX, None, None, None, Some PlayerO, None, None, None, None] \<and>
   snd (minimax [Some PlayerX, None, None, None, Some PlayerO, None, None, None, None] 0 True PlayerX) =
     [Some PlayerX, None, None, None, Some PlayerO, None, None, None, None] \<and>
   snd (findBestMove [Some PlayerX, None, None, None, Some PlayerO, None, None, None, None] PlayerX) =
     [Some PlayerX, None, None, None, Some PlayerO, None, None, None, None]"
proof -
  have wf: "wellFormed [Some PlayerX, None, None, None, Some PlayerO, None, None, None, None]"
    by (simp add: wellFormed_def)
  from board_restored[OF wf, of 0 True PlayerX] wf show ?thesis by simp
qed

text \<open>
  C7. For every well-formed board and mark \<open>M\<close>, \<open>findBestMove\<close> returns \<open>null\<close> if and only
  if the board has no empty cell, and an index it returns is an empty cell of the board.
\<close>

theorem selected_move_is_empty_cell:
  assumes "wellFormed squares"
  shows "(fst (findBestMove squares M) = None \<longleftrightarrow> (\<forall>i<9. squares ! i \<noteq> None)) \<and>
         (\<forall>i. fst (findBestMove squares M) = Some i \<longrightarrow> i < 9 \<and> squares ! i = None)"
proof -
  from assms have len: "length squares = 9" by (simp add: wellFormed_def)
  have "fst (findBestMove squares M) = None \<longleftrightarrow> (\<forall>i<9. squares ! i \<noteq> None)"
    using len by (simp add: findBestMove_None no_moves_iff)
  moreover have "i < 9 \<and> squares ! i = None" if "fst (findBestMove squares M) = Some i" for i
    using findBestMove_member[OF that] len by (simp add: available_iff)
  ultimately show ?thesis by blast
qed

theorem selected_move_is_empty_cell_witness:
  "wellFormed [Some PlayerX, Some PlayerX, Some PlayerO, Some PlayerO, Some PlayerO, Some PlayerX, Some PlayerX, Some PlayerO, Some PlayerX] \<and>
   getAvailableMoves [Some PlayerX, Some PlayerX, Some PlayerO, Some PlayerO, Some PlayerO, Some PlayerX, Some PlayerX, Some PlayerO, Some PlayerX] = [] \<and>
   fst (findBestMove [Some PlayerX, Some PlayerX, Some PlayerO, Some PlayerO, Some PlayerO, Some PlayerX, Some PlayerX, Some PlayerO, Some PlayerX] PlayerO) = None \<and>
   wellFormed [Some PlayerX, Some PlayerX, None, Some PlayerO, Some PlayerO, None, None, None, None] \<and>
   fst (findBestMove [Some PlayerX, Some PlayerX, None, Some PlayerO, Some PlayerO, None, None, None, None] PlayerO) = Some 5 \<and>
   (5::nat) < 9 \<and>
   [Some PlayerX, Some PlayerX, None, Some PlayerO, Some PlayerO, None, None, None, None] ! 5 = None"
proof -
  let ?F = "[Some PlayerX, Some PlayerX, Some PlayerO, Some PlayerO, Some PlayerO, Some PlayerX, Some PlayerX, Some PlayerO, Some PlayerX]"
  let ?B = "[Some PlayerX, Some PlayerX, None, Some PlayerO, Some PlayerO, None, None, None, None]"
  have wfF: "wellFormed ?F" and wfB: "wellFormed ?B" by (simp_all add: wellFormed_def)
  have nomoves: "getAvailableMoves ?F = []" by code_simp
  then have full: "\<forall>i<9. ?F ! i \<noteq> None" by (simp add: no_moves_iff)
  from selected_move_is_empty_cell[OF wfF, of PlayerO] full
  have none: "fst (findBestMove ?F PlayerO) = None" by blast
  have "find (\<lambda>m. calculateWinner (?B[m := Some PlayerO]) = Some PlayerO) (getAvailableMoves ?B) = Some 5"
    by code_simp
  then have sel: "fst (findBestMove ?B PlayerO) = Some 5" by (simp add: findBestMove_win)
  with selected_move_is_empty_cell[OF wfB, of PlayerO]
  have "(5::nat) < 9 \<and> ?B ! 5 = None" by blast
  with wfF wfB nomoves none sel show ?thesis by blast
qed

section \<open>Claims about the game session\<close>

lemma handleMove_rejected:
  "gameOver s \<or> \<not> (index < length (board s) \<and> board s ! index = None) \<Longrightarrow> handleMove s index = s"
  by (auto simp: handleMove_def)

lemma move_rejected:
  "gameOver s \<or> \<not> (index < length (board s) \<and> board s ! index = None) \<Longrightarrow> move s index = s"
  by (simp add: move_def handleMove_rejected)

lemma move_not_accepted: "\<not> accepted s index \<Longrightarrow> move s index = s"
  by (rule move_rejected) (auto simp: accepted_def)

lemma update_changes: "index < length squares \<Longrightarrow> squares ! index = None \<Longrightarrow> squares[index := Some p] \<noteq> squares"
  by (metis nth_list_update_eq option.distinct(1))

lemma winnerEffect_outcome: "winner s = None \<Longrightarrow> winnerEffect s = s\<lparr>winner := outcome (board s)\<rparr>"
  by (simp add: winnerEffect_def outcome_def split: option.splits)

lemma move_accepted:
  assumes "accepted s index"
  shows "move s index =
    s\<lparr>board := (board s)[index := Some (currentPlayer s)], xIsNext := \<not> xIsNext s,
      winner := outcome ((board s)[index := Some (currentPlayer s)])\<rparr>"
proof -
  from assms have a: "\<not> gameOver s" "index < length (board s)" "board s ! index = None"
    by (simp_all add: accepted_def)
  then have h: "handleMove s index =
      s\<lparr>board := (board s)[index := Some (currentPlayer s)], xIsNext := \<not> xIsNext s\<rparr>"
    by (simp add: handleMove_def)
  from a have "winner s = None" by (simp add: gameOver_def)
  with a h show ?thesis
    by (simp add: move_def Let_def update_changes winnerEffect_outcome)
qed

lemma move_accepted_player:
  "accepted s index \<Longrightarrow> currentPlayer (move s index) = opponentOf (currentPlayer s)"
  by (simp add: move_accepted currentPlayer_def)

lemma placedMarks_hd:
  "placedMarks s indices \<noteq> [] \<Longrightarrow> hd (placedMarks s indices) = currentPlayer s"
proof (induction indices arbitrary: s)
  case Nil
  then show ?case by simp
next
  case (Cons i rest)
  show ?case
  proof (cases "accepted s i")
    case True
    then show ?thesis by simp
  next
    case False
    with Cons show ?thesis by (simp add: move_not_accepted)
  qed
qed

lemma placedMarks_alternate:
  "Suc k < length (placedMarks s indices) \<Longrightarrow>
     placedMarks s indices ! Suc k = opponentOf (placedMarks s indices ! k)"
proof (induction indices arbitrary: s k)
  case Nil
  then show ?case by simp
next
  case (Cons i rest)
  show ?case
  proof (cases "accepted s i")
    case False
    with Cons show ?thesis by (simp add: move_not_accepted)
  next
    case True
    let ?tl = "placedMarks (move s i) rest"
    from True have pm: "placedMarks s (i # rest) = currentPlayer s # ?tl" by simp
    show ?thesis
    proof (cases k)
      case 0
      with Cons.prems pm have ne: "?tl \<noteq> []" by auto
      then have "?tl ! 0 = currentPlayer (move s i)"
        using placedMarks_hd[OF ne] by (simp add: hd_conv_nth)
      with True 0 pm show ?thesis by (simp add: move_accepted_player del: opponentOf.simps)
    next
      case (Suc j)
      with Cons.prems pm have "Suc j < length ?tl" by simp
      from Cons.IH[OF this] Suc pm show ?thesis by (simp del: opponentOf.simps)
    qed
  qed
qed

lemma count_list_place:
  "i < length xs \<Longrightarrow> xs ! i = None \<Longrightarrow>
     count_list (xs[i := Some q]) (Some p) = count_list xs (Some p) + (if p = q then 1 else 0)"
proof (induction xs arbitrary: i)
  case Nil
  then show ?case by simp
next
  case (Cons x xs)
  then show ?case by (cases i) auto
qed

lemma empty_board_facts:
  "length EMPTY_BOARD = 9" "outcome EMPTY_BOARD = None"
  "count_list EMPTY_BOARD (Some PlayerX) = 0" "count_list EMPTY_BOARD (Some PlayerO) = 0"
  by code_simp+

lemma inv_initial: "sessionInv initialSession"
  by (simp add: sessionInv_def initialSession_def empty_board_facts)

lemma inv_reset: "sessionInv (resetGame s)"
  by (simp add: sessionInv_def resetGame_def empty_board_facts)

lemma inv_mode: "sessionInv (handleModeChange s newMode)"
  by (simp add: handleModeChange_def inv_reset)

lemma inv_move: "sessionInv s \<Longrightarrow> sessionInv (move s index)"
proof (cases "accepted s index")
  case False
  assume "sessionInv s"
  with False show ?thesis by (simp add: move_not_accepted)
next
  case True
  assume inv: "sessionInv s"
  from True have a: "index < length (board s)" "board s ! index = None" by (simp_all add: accepted_def)
  show ?thesis
    using inv a
    by (cases "xIsNext s") (simp_all add: move_accepted[OF True] sessionInv_def count_list_place currentPlayer_def)
qed

lemma inv_click: "sessionInv s \<Longrightarrow> sessionInv (squareClick s index)"
  by (simp add: squareClick_def inv_move)

lemma aiTurn_cases:
  "aiTurn s = s \<or>
   (mode s = AI \<and> \<not> gameOver s \<and> currentPlayer s = PlayerO \<and>
    (\<exists>mv. fst (findBestMove (board s) PlayerO) = Some mv \<and> aiTurn s = move s mv))"
proof (cases "aiInvocation s")
  case None
  then show ?thesis by (simp add: aiTurn_def)
next
  case (Some call)
  then have g: "mode s = AI" "\<not> gameOver s" "currentPlayer s = PlayerO" and c: "call = (board s, PlayerO)"
    by (auto simp: aiInvocation_def Let_def split: if_splits)
  have same: "s\<lparr>board := snd (findBestMove (board s) PlayerO)\<rparr> = s"
    by (simp add: findBestMove_frame)
  show ?thesis
  proof (cases "fst (findBestMove (board s) PlayerO)")
    case None
    with Some c same have "aiTurn s = s"
      by (simp add: aiTurn_def split_beta)
    then show ?thesis by simp
  next
    case (Some mv)
    with \<open>aiInvocation s = Some call\<close> c same have "aiTurn s = move s mv"
      by (simp add: aiTurn_def split_beta)
    with g Some show ?thesis by blast
  qed
qed

lemma inv_ai: "sessionInv s \<Longrightarrow> sessionInv (aiTurn s)"
  using aiTurn_cases[of s] by (auto simp: inv_move)

lemma reachable_inv: "reachable s \<Longrightarrow> sessionInv s"
  by (induction rule: reachable.induct) (simp_all add: inv_initial inv_click inv_reset inv_mode inv_ai)

lemma reachable_clicks: "reachable s \<Longrightarrow> reachable (foldl squareClick s indices)"
  by (induction indices arbitrary: s) (simp_all add: reach_click)

text \<open>
  C8. In every reachable session, \<open>move\<close> on an occupied cell, or when the game is not in
  progress (a winner or a draw is stored, or shown by the board), leaves the whole session
  (board, turn, winner) as it is: the function returns the session it was given and signals
  nothing.
\<close>

theorem rejected_move_is_noop:
  assumes "reachable s"
    and "winner s \<noteq> None \<or> outcome (board s) \<noteq> None \<or> (index < 9 \<and> board s ! index \<noteq> None)"
  shows "move s index = s \<and> handleMove s index = s"
proof -
  from assms(1) have "winner s = outcome (board s)"
    using reachable_inv[of s] by (simp add: sessionInv_def)
  with assms(2) have "gameOver s \<or> \<not> (index < length (board s) \<and> board s ! index = None)"
    by (auto simp: gameOver_def)
  then show ?thesis by (simp add: move_rejected handleMove_rejected)
qed

theorem rejected_move_is_noop_witness:
  "reachable (foldl squareClick initialSession [0, 3, 1, 4, 2]) \<and>
   winner (foldl squareClick initialSession [0, 3, 1, 4, 2]) = Some (Won PlayerX) \<and>
   move (foldl squareClick initialSession [0, 3, 1, 4, 2]) 8 = foldl squareClick initialSession [0, 3, 1, 4, 2] \<and>
   reachable (squareClick initialSession 4) \<and>
   board (squareClick initialSession 4) ! 4 = Some PlayerX \<and>
   move (squareClick initialSession 4) 4 = squareClick initialSession 4"
proof -
  let ?over = "foldl squareClick initialSession [0, 3, 1, 4, 2]"
  let ?one = "squareClick initialSession 4"
  have r1: "reachable ?over" by (rule reachable_clicks[OF reach_initial])
  have r2: "reachable ?one" by (rule reach_click[OF reach_initial])
  have w: "winner ?over = Some (Won PlayerX)" by code_simp
  have occ: "board ?one ! 4 = Some PlayerX" by code_simp
  from w have "move ?over 8 = ?over"
    using rejected_move_is_noop[OF r1, of 8] by simp
  moreover from occ have "move ?one 4 = ?one"
    using rejected_move_is_noop[OF r2, of 4] by simp
  ultimately show ?thesis using r1 r2 w occ by blast
qed

text \<open>
  C9. In every reachable session that is in progress, an accepted \<open>move\<close> changes the board
  in exactly the one cell \<open>index\<close>, which goes from empty to the current player's mark; no
  other cell changes, so no filled cell is overwritten; and the turn passes to the other
  mark. Over any sequence of moves the marks placed by the accepted ones alternate.
\<close>

theorem accepted_move_places_one_mark:
  assumes "reachable s" and "winner s = None" and "index < 9" and "board s ! index = None"
  shows "board (move s index) = (board s)[index := Some (currentPlayer s)] \<and>
         board (move s index) ! index = Some (currentPlayer s) \<and>
         (\<forall>j<9. j \<noteq> index \<longrightarrow> board (move s index) ! j = board s ! j) \<and>
         (\<forall>j<9. board s ! j \<noteq> None \<longrightarrow> board (move s index) ! j = board s ! j) \<and>
         length (board (move s index)) = 9 \<and>
         xIsNext (move s index) = (\<not> xIsNext s) \<and>
         currentPlayer (move s index) = opponentOf (currentPlayer s) \<and>
         (\<forall>indices k. Suc k < length (placedMarks s indices) \<longrightarrow>
            placedMarks s indices ! Suc k = opponentOf (placedMarks s indices ! k))"
proof -
  from assms(1) have len: "length (board s) = 9"
    using reachable_inv[of s] by (simp add: sessionInv_def)
  with assms have acc: "accepted s index" by (simp add: accepted_def gameOver_def)
  note m = move_accepted[OF acc]
  have b: "board (move s index) = (board s)[index := Some (currentPlayer s)]" by (simp add: m)
  have "board (move s index) ! index = Some (currentPlayer s)"
    using len assms(3) by (simp add: b)
  moreover have "\<forall>j<9. j \<noteq> index \<longrightarrow> board (move s index) ! j = board s ! j"
    by (simp add: b)
  moreover have "\<forall>j<9. board s ! j \<noteq> None \<longrightarrow> board (move s index) ! j = board s ! j"
    using assms(4) by (metis b nth_list_update_neq)
  moreover have "length (board (move s index)) = 9" using len by (simp add: b)
  moreover have "xIsNext (move s index) = (\<not> xIsNext s)" by (simp add: m)
  moreover have "currentPlayer (move s index) = opponentOf (currentPlayer s)"
    by (rule move_accepted_player[OF acc])
  ultimately show ?thesis using b placedMarks_alternate by blast
qed

theorem accepted_move_places_one_mark_witness:
  "reachable initialSession \<and> winner initialSession = None \<and> board initialSession ! 4 = None \<and>
   board (move initialSession 4) = [None, None, None, None, Some PlayerX, None, None, None, None] \<and>
   currentPlayer (move initialSession 4) = PlayerO \<and>
   placedMarks initialSession [4, 4, 0, 8] = [PlayerX, PlayerO, PlayerX]"
proof -
  have w: "winner initialSession = None" by code_simp
  have e: "board initialSession ! 4 = None" by code_simp
  have lt: "(4::nat) < 9" by simp
  have upd: "(board initialSession)[4 := Some (currentPlayer initialSession)] =
      [None, None, None, None, Some PlayerX, None, None, None, None]" by code_simp
  have opp: "opponentOf (currentPlayer initialSession) = PlayerO" by code_simp
  have pm: "placedMarks initialSession [4, 4, 0, 8] = [PlayerX, PlayerO, PlayerX]" by code_simp
  from accepted_move_places_one_mark[OF reach_initial w lt e] upd opp
  have "board (move initialSession 4) = [None, None, None, None, Some PlayerX, None, None, None, None]"
    and "currentPlayer (move initialSession 4) = PlayerO"
    by simp_all
  with reach_initial w e pm show ?thesis by blast
qed

text \<open>
  C10. In every reachable session the automated player is mark O and the human is mark X:
  the effect calls \<open>findBestMove\<close> only with mark O, on the board of the session, which then
  holds an X; a click in AI mode places an X; a move of the automated player places an O on
  a board that holds an X; the initial session, a restart and a change of mode give the
  empty board with X to move; and on the empty board X is to move and the automated player
  does nothing.
\<close>

theorem ai_plays_O_after_X:
  assumes "reachable s"
  shows "(\<forall>squares aiMark. aiInvocation s = Some (squares, aiMark) \<longrightarrow>
            aiMark = PlayerO \<and> squares = board s \<and> (\<exists>i<9. squares ! i = Some PlayerX)) \<and>
         (mode s = AI \<and> squareClick s index \<noteq> s \<longrightarrow>
            board (squareClick s index) = (board s)[index := Some PlayerX]) \<and>
         (aiTurn s \<noteq> s \<longrightarrow>
            mode s = AI \<and> (\<exists>i<9. board s ! i = Some PlayerX) \<and>
            (\<exists>i<9. board s ! i = None \<and> board (aiTurn s) = (board s)[i := Some PlayerO])) \<and>
         (board s = EMPTY_BOARD \<longrightarrow> xIsNext s \<and> aiInvocation s = None \<and> aiTurn s = s) \<and>
         xIsNext initialSession \<and> board initialSession = EMPTY_BOARD \<and>
         xIsNext (resetGame s) \<and> board (resetGame s) = EMPTY_BOARD \<and>
         xIsNext (handleModeChange s newMode) \<and> board (handleModeChange s newMode) = EMPTY_BOARD"
proof -
  from assms have inv: "sessionInv s" by (rule reachable_inv)
  then have len: "length (board s) = 9"
    and cnt: "count_list (board s) (Some PlayerX) =
        count_list (board s) (Some PlayerO) + (if xIsNext s then 0 else 1)"
    by (simp_all add: sessionInv_def)
  have hasX: "\<exists>i<9. board s ! i = Some PlayerX" if "currentPlayer s = PlayerO"
  proof -
    from that have "\<not> xIsNext s" by (simp add: currentPlayer_def split: if_splits)
    with cnt have "count_list (board s) (Some PlayerX) \<noteq> 0" by simp
    then have "Some PlayerX \<in> set (board s)" by (simp add: count_list_0_iff)
    with len show ?thesis by (auto simp: in_set_conv_nth)
  qed
  have call: "aiMark = PlayerO \<and> squares = board s \<and> (\<exists>i<9. squares ! i = Some PlayerX)"
    if "aiInvocation s = Some (squares, aiMark)" for squares aiMark
  proof -
    from that have "aiMark = PlayerO" "squares = board s" "currentPlayer s = PlayerO"
      by (auto simp: aiInvocation_def Let_def split: if_splits)
    with hasX show ?thesis by simp
  qed
  have click: "board (squareClick s index) = (board s)[index := Some PlayerX]"
    if "mode s = AI" "squareClick s index \<noteq> s"
  proof -
    from that(2) have en: "index < length (board s)" "\<not> boardDisabled s" "board s ! index = None"
      and sq: "squareClick s index = move s index"
      by (auto simp: squareClick_def split: if_splits)
    from en that(1) have "\<not> gameOver s" "currentPlayer s = PlayerX"
      by (auto simp: boardDisabled_def currentPlayer_def split: if_splits)
    with en have "accepted s index" by (simp add: accepted_def)
    from move_accepted[OF this] sq \<open>currentPlayer s = PlayerX\<close> show ?thesis by simp
  qed
  have ai: "mode s = AI \<and> (\<exists>i<9. board s ! i = Some PlayerX) \<and>
      (\<exists>i<9. board s ! i = None \<and> board (aiTurn s) = (board s)[i := Some PlayerO])"
    if "aiTurn s \<noteq> s"
  proof -
    from that aiTurn_cases[of s] obtain mv where
      g: "mode s = AI" "\<not> gameOver s" "currentPlayer s = PlayerO"
      and mv: "fst (findBestMove (board s) PlayerO) = Some mv" "aiTurn s = move s mv"
      by blast
    from findBestMove_member[OF mv(1)] len have e: "mv < 9" "board s ! mv = None"
      by (simp_all add: available_iff)
    with g len have "accepted s mv" by (simp add: accepted_def)
    from move_accepted[OF this] mv(2) g(3)
    have "board (aiTurn s) = (board s)[mv := Some PlayerO]" by simp
    with e g hasX show ?thesis by blast
  qed
  have start: "xIsNext s \<and> aiInvocation s = None \<and> aiTurn s = s" if "board s = EMPTY_BOARD"
  proof -
    from that cnt have x: "xIsNext s" by (simp add: empty_board_facts split: if_splits)
    then have "aiInvocation s = None" by (simp add: aiInvocation_def currentPlayer_def)
    with x show ?thesis by (simp add: aiTurn_def)
  qed
  have "xIsNext initialSession \<and> board initialSession = EMPTY_BOARD \<and>
         xIsNext (resetGame s) \<and> board (resetGame s) = EMPTY_BOARD \<and>
         xIsNext (handleModeChange s newMode) \<and> board (handleModeChange s newMode) = EMPTY_BOARD"
    by (simp add: initialSession_def resetGame_def handleModeChange_def)
  with call click ai start show ?thesis by blast
qed

theorem ai_plays_O_after_X_witness:
  "reachable (squareClick (handleModeChange initialSession AI) 4) \<and>
   aiInvocation (squareClick (handleModeChange initialSession AI) 4) =
     Some ([None, None, None, None, Some PlayerX, None, None, None, None], PlayerO) \<and>
   board (squareClick (handleModeChange initialSession AI) 4) =
     [None, None, None, None, Some PlayerX, None, None, None, None] \<and>
   (\<exists>i<9. [None, None, None, None, Some PlayerX, None, None, None, None] ! i = Some PlayerX) \<and>
   xIsNext (resetGame (squareClick (handleModeChange initialSession AI) 4))"
proof -
  let ?s = "squareClick (handleModeChange initialSession AI) 4"
  let ?b = "[None, None, None, None, Some PlayerX, None, None, None, None]"
  have r: "reachable ?s" by (intro reach_click reach_mode reach_initial)
  have c: "aiInvocation ?s = Some (?b, PlayerO)" by code_simp
  have b: "board ?s = ?b" by code_simp
  from ai_plays_O_after_X[OF r, of 0 PVP] c
  have "\<exists>i<9. ?b ! i = Some PlayerX" and "xIsNext (resetGame ?s)"
    by blast+
  with r c b show ?thesis by blast
qed

section \<open>Selecting a move on a concrete board\<close>

lemma noImmediate_find:
  "noImmediate p squares \<Longrightarrow>
     find (\<lambda>m. calculateWinner (squares[m := Some p]) = Some p) (getAvailableMoves squares) = None"
  by (simp add: noImmediate_iff find_available_None)

text \<open>
  The full search returns \<open>m\<close> when the value after \<open>m\<close> is at least \<open>c\<close>, no move has a
  value above \<open>c\<close>, and the moves before \<open>m\<close> stay below \<open>c\<close>.
\<close>

lemma search_selects:
  assumes ni1: "noImmediate ai squares" and ni2: "noImmediate (opponentOf ai) squares"
    and mem: "m \<in> set (getAvailableMoves squares)"
    and lo: "lowerL n1 False c [squares[m := Some ai]] 0 ai"
    and up: "upperL n2 True c (placements ai squares) 0 ai"
    and before: "upperL n3 True (c - 1)
        (map (\<lambda>k. squares[k := Some ai]) (filter (\<lambda>k. k < m) (getAvailableMoves squares))) 0 ai"
  shows "findBestMove squares ai = (Some m, squares)"
proof -
  let ?val = "\<lambda>k. fst (minimax (squares[k := Some ai]) 0 False ai)"
  from lowerL_sound[OF lo] have low: "Num c \<le> ?val m" by simp
  from upperL_sound[OF up] have upp: "\<forall>k \<in> set (getAvailableMoves squares). ?val k \<le> Num c"
    by (simp add: placements_moves)
  from upperL_sound[OF before]
  have bef: "\<forall>k \<in> set (getAvailableMoves squares). k < m \<longrightarrow> ?val k \<le> Num (c - 1)"
    by simp
  from mem have ne: "getAvailableMoves squares \<noteq> []" by auto
  from findBestMove_search[OF noImmediate_find[OF ni1] noImmediate_find[OF ni2] ne]
  obtain r where r: "findBestMove squares ai = (Some r, squares)"
    and rmem: "r \<in> set (getAvailableMoves squares)"
    and rmax: "\<forall>k \<in> set (getAvailableMoves squares). ?val k \<le> ?val r"
    and rfirst: "\<forall>k \<in> set (getAvailableMoves squares). k < r \<longrightarrow> ?val k < ?val r"
    by blast
  have "\<not> r < m"
  proof
    assume "r < m"
    with bef rmem have "?val r \<le> Num (c - 1)" by blast
    also have "Num (c - 1) < Num c" by simp
    also note low
    finally have "?val r < ?val m" .
    with rmax mem show False by (auto simp: not_less[symmetric])
  qed
  moreover have "\<not> m < r"
  proof
    assume "m < r"
    with rfirst mem have "?val m < ?val r" by blast
    also from upp rmem have "?val r \<le> Num c" by blast
    finally show False using low by simp
  qed
  ultimately have "r = m" by simp
  with r show ?thesis by simp
qed

lemma block_selects:
  assumes "noImmediate ai squares"
    and "find (\<lambda>m. calculateWinner (squares[m := Some (opponentOf ai)]) = Some (opponentOf ai))
           (getAvailableMoves squares) = Some m"
  shows "findBestMove squares ai = (Some m, squares)"
  using findBestMove_block[OF noImmediate_find[OF assms(1)] assms(2)] .

lemma selfPlay_step:
  "\<not> gameOver s \<Longrightarrow> findBestMove (board s) (currentPlayer s) = (Some mv, board s) \<Longrightarrow>
     selfPlay s = selfPlay (move s mv)"
  by (subst selfPlay.simps) simp

lemma selfPlay_over: "gameOver s \<Longrightarrow> selfPlay s = Some s"
  by (subst selfPlay.simps) simp

lemma first_move:
  "findBestMove [None, None, None, None, None, None, None, None, None] PlayerX =
     (Some 0, [None, None, None, None, None, None, None, None, None])"
proof (rule search_selects [where c = 0 and ?n1.0 = 10 and ?n2.0 = 10 and ?n3.0 = 10])
  let ?B = "[None, None, None, None, None, None, None, None, None]"
  show "noImmediate PlayerX ?B" by code_simp
  show "noImmediate (opponentOf PlayerX) ?B" by code_simp
  show "0 \<in> set (getAvailableMoves ?B)" by code_simp
  show "lowerL 10 False 0 [?B[0 := Some PlayerX]] 0 PlayerX" by code_simp
  show "upperL 10 True 0 (placements PlayerX ?B) 0 PlayerX" by code_simp
  show "upperL 10 True (0 - 1)
        (map (\<lambda>k. ?B[k := Some PlayerX]) (filter (\<lambda>k. k < 0) (getAvailableMoves ?B))) 0 PlayerX"
    by code_simp
qed

subsection \<open>The self-play game, move by move\<close>

lemma second_move:
  "findBestMove [Some PlayerX, None, None, None, None, None, None, None, None] PlayerO =
     (Some 4, [Some PlayerX, None, None, None, None, None, None, None, None])"
proof (rule search_selects [where c = 0 and ?n1.0 = 10 and ?n2.0 = 10 and ?n3.0 = 10])
  let ?B = "[Some PlayerX, None, None, None, None, None, None, None, None]"
  show "noImmediate PlayerO ?B" by code_simp
  show "noImmediate (opponentOf PlayerO) ?B" by code_simp
  show "4 \<in> set (getAvailableMoves ?B)" by code_simp
  show "lowerL 10 False 0 [?B[4 := Some PlayerO]] 0 PlayerO" by code_simp
  show "upperL 10 True 0 (placements PlayerO ?B) 0 PlayerO" by code_simp
  show "upperL 10 True (0 - 1)
        (map (\<lambda>k. ?B[k := Some PlayerO]) (filter (\<lambda>k. k < 4) (getAvailableMoves ?B))) 0 PlayerO"
    by code_simp
qed

lemma third_move:
  "findBestMove [Some PlayerX, None, None, None, Some PlayerO, None, None, None, None] PlayerX =
     (Some 1, [Some PlayerX, None, None, None, Some PlayerO, None, None, None, None])"
proof (rule search_selects [where c = 0 and ?n1.0 = 10 and ?n2.0 = 10 and ?n3.0 = 10])
  let ?B = "[Some PlayerX, None, None, None, Some PlayerO, None, None, None, None]"
  show "noImmediate PlayerX ?B" by code_simp
  show "noImmediate (opponentOf PlayerX) ?B" by code_simp
  show "1 \<in> set (getAvailableMoves ?B)" by code_simp
  show "lowerL 10 False 0 [?B[1 := Some PlayerX]] 0 PlayerX" by code_simp
  show "upperL 10 True 0 (placements PlayerX ?B) 0 PlayerX" by code_simp
  show "upperL 10 True (0 - 1)
        (map (\<lambda>k. ?B[k := Some PlayerX]) (filter (\<lambda>k. k < 1) (getAvailableMoves ?B))) 0 PlayerX"
    by code_simp
qed

lemma fourth_move:
  "findBestMove [Some PlayerX, Some PlayerX, None, None, Some PlayerO, None, None, None, None] PlayerO =
     (Some 2, [Some PlayerX, Some PlayerX, None, None, Some PlayerO, None, None, None, None])"
proof (rule block_selects)
  let ?B = "[Some PlayerX, Some PlayerX, None, None, Some PlayerO, None, None, None, None]"
  show "noImmediate PlayerO ?B" by code_simp
  show "find (\<lambda>m. calculateWinner (?B[m := Some (opponentOf PlayerO)]) = Some (opponentOf PlayerO))
          (getAvailableMoves ?B) = Some 2"
    by code_simp
qed

lemma fifth_move:
  "findBestMove [Some PlayerX, Some PlayerX, Some PlayerO, None, Some PlayerO, None, None, None, None] PlayerX =
     (Some 6, [Some PlayerX, Some PlayerX, Some PlayerO, None, Some PlayerO, None, None, None, None])"
proof (rule block_selects)
  let ?B = "[Some PlayerX, Some PlayerX, Some PlayerO, None, Some PlayerO, None, None, None, None]"
  show "noImmediate PlayerX ?B" by code_simp
  show "find (\<lambda>m. calculateWinner (?B[m := Some (opponentOf PlayerX)]) = Some (opponentOf PlayerX))
          (getAvailableMoves ?B) = Some 6"
    by code_simp
qed

lemma sixth_move:
  "findBestMove [Some PlayerX, Some PlayerX, Some PlayerO, None, Some PlayerO, None, Some PlayerX, None, None] PlayerO =
     (Some 3, [Some PlayerX, Some PlayerX, Some PlayerO, None, Some PlayerO, None, Some PlayerX, None, None])"
proof (rule block_selects)
  let ?B = "[Some PlayerX, Some PlayerX, Some PlayerO, None, Some PlayerO, None, Some PlayerX, None, None]"
  show "noImmediate PlayerO ?B" by code_simp
  show "find (\<lambda>m. calculateWinner (?B[m := Some (opponentOf PlayerO)]) = Some (opponentOf PlayerO))
          (getAvailableMoves ?B) = Some 3"
    by code_simp
qed

lemma seventh_move:
  "findBestMove [Some PlayerX, Some PlayerX, Some PlayerO, Some PlayerO, Some PlayerO, None, Some PlayerX, None, None] PlayerX =
     (Some 5, [Some PlayerX, Some PlayerX, Some PlayerO, Some PlayerO, Some PlayerO, None, Some PlayerX, None, None])"
proof (rule block_selects)
  let ?B = "[Some PlayerX, Some PlayerX, Some PlayerO, Some PlayerO, Some PlayerO, None, Some PlayerX, None, None]"
  show "noImmediate PlayerX ?B" by code_simp
  show "find (\<lambda>m. calculateWinner (?B[m := Some (opponentOf PlayerX)]) = Some (opponentOf PlayerX))
          (getAvailableMoves ?B) = Some 5"
    by code_simp
qed

lemma eighth_move:
  "findBestMove [Some PlayerX, Some PlayerX, Some PlayerO, Some PlayerO, Some PlayerO, Some PlayerX, Some PlayerX, None, None] PlayerO =
     (Some 7, [Some PlayerX, Some PlayerX, Some PlayerO, Some PlayerO, Some PlayerO, Some PlayerX, Some PlayerX, None, None])"
proof (rule search_selects [where c = 0 and ?n1.0 = 10 and ?n2.0 = 10 and ?n3.0 = 10])
  let ?B = "[Some PlayerX, Some PlayerX, Some PlayerO, Some PlayerO, Some PlayerO, Some PlayerX, Some PlayerX, None, None]"
  show "noImmediate PlayerO ?B" by code_simp
  show "noImmediate (opponentOf PlayerO) ?B" by code_simp
  show "7 \<in> set (getAvailableMoves ?B)" by code_simp
  show "lowerL 10 False 0 [?B[7 := Some PlayerO]] 0 PlayerO" by code_simp
  show "upperL 10 True 0 (placements PlayerO ?B) 0 PlayerO" by code_simp
  show "upperL 10 True (0 - 1)
        (map (\<lambda>k. ?B[k := Some PlayerO]) (filter (\<lambda>k. k < 7) (getAvailableMoves ?B))) 0 PlayerO"
    by code_simp
qed

lemma ninth_move:
  "findBestMove [Some PlayerX, Some PlayerX, Some PlayerO, Some PlayerO, Some PlayerO, Some PlayerX, Some PlayerX, Some PlayerO, None] PlayerX =
     (Some 8, [Some PlayerX, Some PlayerX, Some PlayerO, Some PlayerO, Some PlayerO, Some PlayerX, Some PlayerX, Some PlayerO, None])"
proof (rule search_selects [where c = 0 and ?n1.0 = 10 and ?n2.0 = 10 and ?n3.0 = 10])
  let ?B = "[Some PlayerX, Some PlayerX, Some PlayerO, Some PlayerO, Some PlayerO, Some PlayerX, Some PlayerX, Some PlayerO, None]"
  show "noImmediate PlayerX ?B" by code_simp
  show "noImmediate (opponentOf PlayerX) ?B" by code_simp
  show "8 \<in> set (getAvailableMoves ?B)" by code_simp
  show "lowerL 10 False 0 [?B[8 := Some PlayerX]] 0 PlayerX" by code_simp
  show "upperL 10 True 0 (placements PlayerX ?B) 0 PlayerX" by code_simp
  show "upperL 10 True (0 - 1)
        (map (\<lambda>k. ?B[k := Some PlayerX]) (filter (\<lambda>k. k < 8) (getAvailableMoves ?B))) 0 PlayerX"
    by code_simp
qed

section \<open>Claim about self-play\<close>

text \<open>
  C6. Starting from the empty board with X to move, and letting the player to move place
  its mark on the cell \<open>findBestMove\<close> returns for that mark until the game is over, the
  game ends: the moves are 0, 4, 1, 2, 6, 3, 5, 7, 8, the final board has no winner and
  no empty cell, and the session records a draw.
\<close>

theorem self_play_draws:
  "selfPlay initialSession =
     Some \<lparr>mode = PVP, board = [Some PlayerX, Some PlayerX, Some PlayerO, Some PlayerO, Some PlayerO, Some PlayerX, Some PlayerX, Some PlayerO, Some PlayerX], xIsNext = False, winner = Some Draw\<rparr> \<and>
   calculateWinner [Some PlayerX, Some PlayerX, Some PlayerO, Some PlayerO, Some PlayerO, Some PlayerX, Some PlayerX, Some PlayerO, Some PlayerX] = None \<and>
   list_all (\<lambda>c. c \<noteq> None) [Some PlayerX, Some PlayerX, Some PlayerO, Some PlayerO, Some PlayerO, Some PlayerX, Some PlayerX, Some PlayerO, Some PlayerX]"
proof -
  have "initialSession = \<lparr>mode = PVP, board = [None, None, None, None, None, None, None, None, None], xIsNext = True, winner = None\<rparr>"
    by code_simp
  then have "selfPlay initialSession = selfPlay \<lparr>mode = PVP, board = [None, None, None, None, None, None, None, None, None], xIsNext = True, winner = None\<rparr>"
    by simp
  also have "selfPlay \<lparr>mode = PVP, board = [None, None, None, None, None, None, None, None, None], xIsNext = True, winner = None\<rparr> = selfPlay (move \<lparr>mode = PVP, board = [None, None, None, None, None, None, None, None, None], xIsNext = True, winner = None\<rparr> 0)"
    by (rule selfPlay_step) (simp_all add: gameOver_def currentPlayer_def first_move)
  also have "move \<lparr>mode = PVP, board = [None, None, None, None, None, None, None, None, None], xIsNext = True, winner = None\<rparr> 0 = \<lparr>mode = PVP, board = [Some PlayerX, None, None, None, None, None, None, None, None], xIsNext = False, winner = None\<rparr>"
    by code_simp
  also have "selfPlay \<lparr>mode = PVP, board = [Some PlayerX, None, None, None, None, None, None, None, None], xIsNext = False, winner = None\<rparr> = selfPlay (move \<lparr>mode = PVP, board = [Some PlayerX, None, None, None, None, None, None, None, None], xIsNext = False, winner = None\<rparr> 4)"
    by (rule selfPlay_step) (simp_all add: gameOver_def currentPlayer_def second_move)
  also have "move \<lparr>mode = PVP, board = [Some PlayerX, None, None, None, None, None, None, None, None], xIsNext = False, winner = None\<rparr> 4 = \<lparr>mode = PVP, board = [Some PlayerX, None, None, None, Some PlayerO, None, None, None, None], xIsNext = True, winner = None\<rparr>"
    by code_simp
  also have "selfPlay \<lparr>mode = PVP, board = [Some PlayerX, None, None, None, Some PlayerO, None, None, None, None], xIsNext = True, winner = None\<rparr> = selfPlay (move \<lparr>mode = PVP, board = [Some PlayerX, None, None, None, Some PlayerO, None, None, None, None], xIsNext = True, winner = None\<rparr> 1)"
    by (rule selfPlay_step) (simp_all add: gameOver_def currentPlayer_def third_move)
  also have "move \<lparr>mode = PVP, board = [Some PlayerX, None, None, None, Some PlayerO, None, None, None, None], xIsNext = True, winner = None\<rparr> 1 = \<lparr>mode = PVP, board = [Some PlayerX, Some PlayerX, None, None, Some PlayerO, None, None, None, None], xIsNext = False, winner = None\<rparr>"
    by code_simp
  also have "selfPlay \<lparr>mode = PVP, board = [Some PlayerX, Some PlayerX, None, None, Some PlayerO, None, None, None, None], xIsNext = False, winner = None\<rparr> = selfPlay (move \<lparr>mode = PVP, board = [Some PlayerX, Some PlayerX, None, None, Some PlayerO, None, None, None, None], xIsNext = False, winner = None\<rparr> 2)"
    by (rule selfPlay_step) (simp_all add: gameOver_def currentPlayer_def fourth_move)
  also have "move \<lparr>mode = PVP, board = [Some PlayerX, Some PlayerX, None, None, Some PlayerO, None, None, None, None], xIsNext = False, winner = None\<rparr> 2 = \<lparr>mode = PVP, board = [Some PlayerX, Some PlayerX, Some PlayerO, None, Some PlayerO, None, None, None, None], xIsNext = True, winner = None\<rparr>"
    by code_simp
  also have "selfPlay \<lparr>mode = PVP, board = [Some PlayerX, Some PlayerX, Some PlayerO, None, Some PlayerO, None, None, None, None], xIsNext = True, winner = None\<rparr> = selfPlay (move \<lparr>mode = PVP, board = [Some PlayerX, Some PlayerX, Some PlayerO, None, Some PlayerO, None, None, None, None], xIsNext = True, winner = None\<rparr> 6)"
    by (rule selfPlay_step) (simp_all add: gameOver_def currentPlayer_def fifth_move)
  also have "move \<lparr>mode = PVP, board = [Some PlayerX, Some PlayerX, Some PlayerO, None, Some PlayerO, None, None, None, None], xIsNext = True, winner = None\<rparr> 6 = \<lparr>mode = PVP, board = [Some PlayerX, Some PlayerX, Some PlayerO, None, Some PlayerO, None, Some PlayerX, None, None], xIsNext = False, winner = None\<rparr>"
    by code_simp
  also have "selfPlay \<lparr>mode = PVP, board = [Some PlayerX, Some PlayerX, Some PlayerO, None, Some PlayerO, None, Some PlayerX, None, None], xIsNext = False, winner = None\<rparr> = selfPlay (move \<lparr>mode = PVP, board = [Some PlayerX, Some PlayerX, Some PlayerO, None, Some PlayerO, None, Some PlayerX, None, None], xIsNext = False, winner = None\<rparr> 3)"
    by (rule selfPlay_step) (simp_all add: gameOver_def currentPlayer_def sixth_move)
  also have "move \<lparr>mode = PVP, board = [Some PlayerX, Some PlayerX, Some PlayerO, None, Some PlayerO, None, Some PlayerX, None, None], xIsNext = False, winner = None\<rparr> 3 = \<lparr>mode = PVP, board = [Some PlayerX, Some PlayerX, Some PlayerO, Some PlayerO, Some PlayerO, None, Some PlayerX, None, None], xIsNext = True, winner = None\<rparr>"
    by code_simp
  also have "selfPlay \<lparr>mode = PVP, board = [Some PlayerX, Some PlayerX, Some PlayerO, Some PlayerO, Some PlayerO, None, Some PlayerX, None, None], xIsNext = True, winner = None\<rparr> = selfPlay (move \<lparr>mode = PVP, board = [Some PlayerX, Some PlayerX, Some PlayerO, Some PlayerO, Some PlayerO, None, Some PlayerX, None, None], xIsNext = True, winner = None\<rparr> 5)"
    by (rule selfPlay_step) (simp_all add: gameOver_def currentPlayer_def seventh_move)
  also have "move \<lparr>mode = PVP, board = [Some PlayerX, Some PlayerX, Some PlayerO, Some PlayerO, Some PlayerO, None, Some PlayerX, None, None], xIsNext = True, winner = None\<rparr> 5 = \<lparr>mode = PVP, board = [Some PlayerX, Some PlayerX, Some PlayerO, Some PlayerO, Some PlayerO, Some PlayerX, Some PlayerX, None, None], xIsNext = False, winner = None\<rparr>"
    by code_simp
  also have "selfPlay \<lparr>mode = PVP, board = [Some PlayerX, Some PlayerX, Some PlayerO, Some PlayerO, Some PlayerO, Some PlayerX, Some PlayerX, None, None], xIsNext = False, winner = None\<rparr> = selfPlay (move \<lparr>mode = PVP, board = [Some PlayerX, Some PlayerX, Some PlayerO, Some PlayerO, Some PlayerO, Some PlayerX, Some PlayerX, None, None], xIsNext = False, winner = None\<rparr> 7)"
    by (rule selfPlay_step) (simp_all add: gameOver_def currentPlayer_def eighth_move)
  also have "move \<lparr>mode = PVP, board = [Some PlayerX, Some PlayerX, Some PlayerO, Some PlayerO, Some PlayerO, Some PlayerX, Some PlayerX, None, None], xIsNext = False, winner = None\<rparr> 7 = \<lparr>mode = PVP, board = [Some PlayerX, Some PlayerX, Some PlayerO, Some PlayerO, Some PlayerO, Some PlayerX, Some PlayerX, Some PlayerO, None], xIsNext = True, winner = None\<rparr>"
    by code_simp
  also have "selfPlay \<lparr>mode = PVP, board = [Some PlayerX, Some PlayerX, Some PlayerO, Some PlayerO, Some PlayerO, Some PlayerX, Some PlayerX, Some PlayerO, None], xIsNext = True, winner = None\<rparr> = selfPlay (move \<lparr>mode = PVP, board = [Some PlayerX, Some PlayerX, Some PlayerO, Some PlayerO, Some PlayerO, Some PlayerX, Some PlayerX, Some PlayerO, None], xIsNext = True, winner = None\<rparr> 8)"
    by (rule selfPlay_step) (simp_all add: gameOver_def currentPlayer_def ninth_move)
  also have "move \<lparr>mode = PVP, board = [Some PlayerX, Some PlayerX, Some PlayerO, Some PlayerO, Some PlayerO, Some PlayerX, Some PlayerX, Some PlayerO, None], xIsNext = True, winner = None\<rparr> 8 = \<lparr>mode = PVP, board = [Some PlayerX, Some PlayerX, Some PlayerO, Some PlayerO, Some PlayerO, Some PlayerX, Some PlayerX, Some PlayerO, Some PlayerX], xIsNext = False, winner = Some Draw\<rparr>"
    by code_simp
  also have "selfPlay \<lparr>mode = PVP, board = [Some PlayerX, Some PlayerX, Some PlayerO, Some PlayerO, Some PlayerO, Some PlayerX, Some PlayerX, Some PlayerO, Some PlayerX], xIsNext = False, winner = Some Draw\<rparr> = Some \<lparr>mode = PVP, board = [Some PlayerX, Some PlayerX, Some PlayerO, Some PlayerO, Some PlayerO, Some PlayerX, Some PlayerX, Some PlayerO, Some PlayerX], xIsNext = False, winner = Some Draw\<rparr>"
    by (rule selfPlay_over) (simp add: gameOver_def)
  finally have game: "selfPlay initialSession = Some \<lparr>mode = PVP, board = [Some PlayerX, Some PlayerX, Some PlayerO, Some PlayerO, Some PlayerO, Some PlayerX, Some PlayerX, Some PlayerO, Some PlayerX], xIsNext = False, winner = Some Draw\<rparr>" .
  have "calculateWinner [Some PlayerX, Some PlayerX, Some PlayerO, Some PlayerO, Some PlayerO, Some PlayerX, Some PlayerX, Some PlayerO, Some PlayerX] = None" by code_simp
  moreover have "list_all (\<lambda>c. c \<noteq> None) [Some PlayerX, Some PlayerX, Some PlayerO, Some PlayerO, Some PlayerO, Some PlayerX, Some PlayerX, Some PlayerO, Some PlayerX]" by code_simp
  ultimately show ?thesis using game by simp
qed

end
